theory Spec2Isabelle
  imports Main "HOL-Library.Multiset" "HOL-Library.Countable" "HOL-Library.Sublist"
begin

section \<open>Strings\<close>

text \<open>
  A Python \<open>str\<close> is a sequence of Unicode code points, and \<open>len\<close> counts code
  points. A code point is a natural number here; \<open>u\<close> turns an ASCII literal into
  such a string.
\<close>

type_synonym str = "nat list"

definition u :: "string \<Rightarrow> str" where
  "u s = map of_char s"

text \<open>
  The characters that \<open>str.strip\<close>, \<open>str.lstrip\<close> and \<open>str.rstrip\<close> remove
  when called without an argument: those for which \<open>str.isspace\<close> holds
  (TAB to CR, FS to US, space, NEL, NBSP and the Unicode space separators).
\<close>

definition isspace :: "nat \<Rightarrow> bool" where
  "isspace c \<longleftrightarrow>
     (9 \<le> c \<and> c \<le> 13) \<or> (28 \<le> c \<and> c \<le> 32) \<or> c = 133 \<or> c = 160 \<or> c = 5760 \<or>
     (8192 \<le> c \<and> c \<le> 8202) \<or> c = 8232 \<or> c = 8233 \<or> c = 8239 \<or> c = 8287 \<or> c = 12288"

definition lstrip :: "str \<Rightarrow> str" where
  "lstrip s = dropWhile isspace s"

definition rstrip :: "str \<Rightarrow> str" where
  "rstrip s = rev (dropWhile isspace (rev s))"

definition strip :: "str \<Rightarrow> str" where
  "strip s = rstrip (lstrip s)"

section \<open>Trees\<close>

text \<open>
  A configuration tree is a Python dictionary from command text to the dictionary of
  the command's children. A dictionary keeps its keys in insertion order, so it is an
  association list; \<open>wf_tree\<close> says that no dictionary holds a key twice.
\<close>

datatype tree = Tree (entries: "(str \<times> tree) list")

definition keys :: "tree \<Rightarrow> str list" where
  "keys t = map fst (entries t)"

text \<open>\<open>key in tree\<close>\<close>

definition contains :: "tree \<Rightarrow> str \<Rightarrow> bool" where
  "contains t key \<longleftrightarrow> key \<in> set (keys t)"

text \<open>\<open>tree[key]\<close>; \<open>None\<close> is the \<open>KeyError\<close> of a missing key.\<close>

definition getitem :: "tree \<Rightarrow> str \<Rightarrow> tree option" where
  "getitem t key = map_of (entries t) key"

fun wf_tree :: "tree \<Rightarrow> bool" where
  "wf_tree (Tree kvs) \<longleftrightarrow> distinct (map fst kvs) \<and> list_all (\<lambda>kv. wf_tree (snd kv)) kvs"

text \<open>The number of nodes of a tree: its keys, and the keys of all nested dictionaries.\<close>

fun nodes :: "tree \<Rightarrow> nat" where
  "nodes (Tree kvs) = sum_list (map (\<lambda>kv. Suc (nodes (snd kv))) kvs)"

text \<open>
  Equality of dictionaries in Python ignores the insertion order: the same keys, and
  equal values under every key.
\<close>

function tree_eq :: "tree \<Rightarrow> tree \<Rightarrow> bool" where
  "tree_eq a b \<longleftrightarrow>
     set (keys a) = set (keys b) \<and>
     list_all (\<lambda>key. case (getitem a key, getitem b key) of
                        (Some x, Some y) \<Rightarrow> tree_eq x y
                      | _ \<Rightarrow> False) (keys a)"
  by pat_completeness auto

lemma size_entry: "(k, t) \<in> set kvs \<Longrightarrow> size t < size (Tree kvs)"
  by (induction kvs) auto

lemma size_getitem: "getitem t key = Some s \<Longrightarrow> size s < size t"
  by (cases t) (auto simp: getitem_def dest!: map_of_SomeD size_entry)

lemma size_tree_pos: "0 < size (t :: tree)"
  by (cases t) simp

termination tree_eq
  by (relation "measure (\<lambda>(a, b). size a)") (auto dest: size_getitem sym)

declare tree_eq.simps [simp del]

section \<open>The tree builder\<close>

text \<open>
  \<open>build_tree\<close> makes dictionaries and changes them through references that it keeps
  on a stack, so the model has a store: \<open>heap\<close> lists the dictionaries made so far,
  a reference is the index of a dictionary in it, and a dictionary maps a command text
  to the reference of the dictionary of its children. Every \<open>defaultdict(dict)\<close> adds
  a dictionary to the end of the heap. The root is the dictionary number 0.
\<close>

type_synonym addr = nat

type_synonym dict = "(str \<times> addr) list"

type_synonym heap = "dict list"

text \<open>The pairs \<open>(indent, dictionary)\<close> of the stack; the head is \<open>stack[-1]\<close>.\<close>

type_synonym 'r stack = "(int \<times> 'r) list"

text \<open>\<open>while stack and stack[-1][0] >= indent: stack.pop()\<close>\<close>

fun pop_to :: "'r stack \<Rightarrow> int \<Rightarrow> 'r stack" where
  "pop_to [] indent = []"
| "pop_to ((i, r) # stack) indent =
     (if i \<ge> indent then pop_to stack indent else (i, r) # stack)"

text \<open>
  \<open>d[key] = v\<close>: a key that \<open>d\<close> has keeps its place and takes the new value, a new
  key goes to the end.
\<close>

fun setitem :: "('k \<times> 'v) list \<Rightarrow> 'k \<Rightarrow> 'v \<Rightarrow> ('k \<times> 'v) list" where
  "setitem [] key v = [(key, v)]"
| "setitem ((k, x) # d) key v =
     (if k = key then (key, v) # d else (k, x) # setitem d key v)"

text \<open>The test of the lines that \<open>build_tree\<close> passes over, its \<open>indent\<close> and its \<open>cmd\<close>.\<close>

definition skipped :: "str \<Rightarrow> bool" where
  "skipped line \<longleftrightarrow>
     (let raw_line = rstrip line in strip raw_line = [] \<or> lstrip raw_line = u ''!'')"

definition indent_of :: "str \<Rightarrow> int" where
  "indent_of line = int (length line) - int (length (lstrip line))"

definition command :: "str \<Rightarrow> str" where
  "command line = (let raw_line = rstrip line in strip raw_line)"

text \<open>
  The body of the loop of \<open>build_tree\<close>, on the heap and the stack. \<open>None\<close> is the
  \<open>IndexError\<close> of \<open>stack[-1]\<close> on an empty stack.
\<close>

definition build_line :: "str \<Rightarrow> heap \<times> addr stack \<Rightarrow> (heap \<times> addr stack) option" where
  "build_line line state =
     (case state of (heap, stack) \<Rightarrow>
        if skipped line then Some (heap, stack)
        else
          let indent = indent_of line;
              cmd = command line;
              stack = pop_to stack indent;
              stack = pop_to stack indent
          in (case stack of
                [] \<Rightarrow> None
              | (i, parent) # below \<Rightarrow>
                  let new = length heap;
                      heap = heap @ [[]];
                      heap = heap[parent := setitem (heap ! parent) cmd new]
                  in Some (heap, (indent, new) # (i, parent) # below)))"

fun build_lines :: "str list \<Rightarrow> heap \<times> addr stack \<Rightarrow> (heap \<times> addr stack) option" where
  "build_lines [] state = Some state"
| "build_lines (line # config_lines) state =
     (case build_line line state of
        None \<Rightarrow> None
      | Some state' \<Rightarrow> build_lines config_lines state')"

text \<open>
  The tree that a reference stands for: the dictionary at the reference, with the tree
  of its reference under every key. A dictionary is made after the dictionary that
  holds it, so references grow along every path of a heap that \<open>build_tree\<close> makes
  (\<open>heap_ok\<close> below); the reading follows growing references only, which is why
  it ends.
\<close>

function tree_at :: "heap \<Rightarrow> addr \<Rightarrow> tree" where
  "tree_at heap a =
     Tree (map (\<lambda>kv. (fst kv,
                      if a < snd kv \<and> snd kv < length heap then tree_at heap (snd kv)
                      else Tree []))
            (heap ! a))"
  by pat_completeness auto

termination tree_at
  by (relation "measure (\<lambda>(heap, a). length heap - a)") auto

declare tree_at.simps [simp del]

text \<open>\<open>root = defaultdict(dict)\<close>, \<open>stack = [(-1, root)]\<close>, the loop, \<open>return root\<close>.\<close>

definition build_tree :: "str list \<Rightarrow> tree option" where
  "build_tree config_lines =
     (case build_lines config_lines ([[]], [(- 1, 0)]) of
        None \<Rightarrow> None
      | Some (heap, stack) \<Rightarrow> Some (tree_at heap 0))"

text \<open>
  The nesting that the indentation of a file expresses, in the words of the
  specification. A line that is not passed over counts with its indentation and its
  command text. \<open>nesting_path indent before\<close> scans the lines before a line of
  indentation \<open>indent\<close> backward (\<open>before\<close> has the nearest line first): the
  nearest line of strictly smaller indentation is the parent, the parent of the parent
  is found from there in the same way, and the result is the command texts of the
  ancestors from the top level down. \<open>nesting_tree\<close> puts every line, in the order
  of the file, as a node without children under the path of its ancestors.
\<close>

definition config_items :: "str list \<Rightarrow> (int \<times> str) list" where
  "config_items config_lines =
     map (\<lambda>line. (indent_of line, command line)) (filter (\<lambda>line. \<not> skipped line) config_lines)"

fun nesting_path :: "int \<Rightarrow> (int \<times> str) list \<Rightarrow> str list" where
  "nesting_path indent [] = []"
| "nesting_path indent ((i, cmd) # before) =
     (if i < indent then nesting_path i before @ [cmd] else nesting_path indent before)"

text \<open>\<open>subtree t path\<close> is the node of \<open>t\<close> under the keys of \<open>path\<close>.\<close>

fun subtree :: "tree \<Rightarrow> str list \<Rightarrow> tree option" where
  "subtree t [] = Some t"
| "subtree t (key # path) =
     (case getitem t key of None \<Rightarrow> None | Some s \<Rightarrow> subtree s path)"

text \<open>
  \<open>graft t path s\<close> puts \<open>s\<close> in the place of the node of \<open>t\<close> under \<open>path\<close>, and
  \<open>put_node t path cmd\<close> gives the node under \<open>path\<close> the key \<open>cmd\<close> with no
  children, in the place of the node that the key had if it had one.
\<close>

fun graft :: "tree \<Rightarrow> str list \<Rightarrow> tree \<Rightarrow> tree" where
  "graft t [] s = s"
| "graft t (key # path) s =
     (case getitem t key of
        None \<Rightarrow> t
      | Some c \<Rightarrow> Tree (setitem (entries t) key (graft c path s)))"

definition put_node :: "tree \<Rightarrow> str list \<Rightarrow> str \<Rightarrow> tree" where
  "put_node t path cmd =
     (case subtree t path of
        None \<Rightarrow> t
      | Some p \<Rightarrow> graft t path (Tree (setitem (entries p) cmd (Tree []))))"

fun nesting_tree :: "(int \<times> str) list \<Rightarrow> tree" where
  "nesting_tree [] = Tree []"
| "nesting_tree ((indent, cmd) # before) =
     put_node (nesting_tree before) (nesting_path indent before) cmd"

text \<open>
  \<open>node_path before line\<close> is the path of the node that a line gets when it comes
  after the lines \<open>before\<close>: the command texts of its ancestors and its own.
  \<open>overwritten before rest path\<close>: one of the lines \<open>rest\<close>, which come after the
  lines \<open>before\<close>, is put at the node under \<open>path\<close> or at one of the nodes above
  it, where it takes the place of that node with an empty dictionary.
\<close>

definition node_path :: "str list \<Rightarrow> str \<Rightarrow> str list" where
  "node_path before line =
     nesting_path (indent_of line) (rev (config_items before)) @ [command line]"

fun overwritten :: "str list \<Rightarrow> str list \<Rightarrow> str list \<Rightarrow> bool" where
  "overwritten before [] path = False"
| "overwritten before (line # rest) path =
     ((\<not> skipped line \<and> prefix (node_path before line) path) \<or>
      overwritten (before @ [line]) rest path)"

text \<open>
  What holds of every heap that \<open>build_tree\<close> makes: a dictionary holds a key once,
  its references are to dictionaries made after it, and no dictionary is referred to
  twice.
\<close>

definition heap_ok :: "heap \<Rightarrow> bool" where
  "heap_ok h \<longleftrightarrow>
     (\<forall>a<length h. distinct (map fst (h ! a)) \<and> (\<forall>kv\<in>set (h ! a). a < snd kv \<and> snd kv < length h)) \<and>
     (\<forall>a b k k' c. a < length h \<and> b < length h \<and> (k, c) \<in> set (h ! a) \<and> (k', c) \<in> set (h ! b)
        \<longrightarrow> a = b \<and> k = k')"

text \<open>The reference that the keys of a path lead to from the reference \<open>a\<close>.\<close>

fun resolve :: "heap \<Rightarrow> addr \<Rightarrow> str list \<Rightarrow> addr option" where
  "resolve h a [] = Some a"
| "resolve h a (key # path) =
     (case map_of (h ! a) key of None \<Rightarrow> None | Some c \<Rightarrow> resolve h c path)"

text \<open>The heap after \<open>parent[cmd] = defaultdict(dict)\<close>, for the parent at \<open>pa\<close>.\<close>

definition extend :: "heap \<Rightarrow> addr \<Rightarrow> str \<Rightarrow> heap" where
  "extend h pa cmd = (h @ [[]])[pa := setitem ((h @ [[]]) ! pa) cmd (length h)]"

text \<open>
  The stack as the nesting describes it: for every open line its indentation and the
  path of its node, and the root with the indentation \<open>-1\<close> at the bottom.
\<close>

fun nesting_stack :: "(int \<times> str) list \<Rightarrow> (str list) stack" where
  "nesting_stack [] = [(- 1, [])]"
| "nesting_stack ((i, cmd) # before) =
     (i, nesting_path i before @ [cmd]) # pop_to (nesting_stack before) i"

text \<open>Every path of the stack extends the paths below it.\<close>

fun chain :: "(str list) stack \<Rightarrow> bool" where
  "chain [] \<longleftrightarrow> True"
| "chain ((i, p) # st) \<longleftrightarrow> (\<forall>e\<in>set st. \<exists>z. p = snd e @ z) \<and> chain st"

text \<open>
  The heap and the stack of \<open>build_tree\<close> after the lines \<open>before\<close> (the last
  line first) against the nesting of these lines.
\<close>

definition sim :: "heap \<Rightarrow> addr stack \<Rightarrow> (int \<times> str) list \<Rightarrow> bool" where
  "sim h st before \<longleftrightarrow>
     heap_ok h \<and> 0 < length h \<and> tree_at h 0 = nesting_tree before \<and>
     list_all2 (\<lambda>e e'. fst e = fst e' \<and> resolve h 0 (snd e') = Some (snd e)) st (nesting_stack before)"

section \<open>The tree differ\<close>

text \<open>
  \<open>set(old_tree) | set(new_tree)\<close> holds every key of the two dictionaries once, and
  the loop visits it in the order of the slots of the set's hash table. The slot of a
  key depends on the hash seed of the process and, where two keys collide, on the order
  in which the keys went in: \<open>slot\<close>, a parameter, gives the slot of every key for
  the two key sequences, and the loop visits the keys by ascending slot. Every order
  of the keys is the order of some \<open>slot\<close> (\<open>union_keys_any_order\<close> below).
\<close>

type_synonym slots = "str list \<Rightarrow> str list \<Rightarrow> str \<Rightarrow> nat"

definition union_keys :: "slots \<Rightarrow> tree \<Rightarrow> tree \<Rightarrow> str list" where
  "union_keys slot old_tree new_tree =
     sort_key (slot (keys old_tree) (keys new_tree)) (remdups (keys old_tree @ keys new_tree))"

text \<open>\<open>"  " * indent\<close>: nothing for a negative \<open>indent\<close>.\<close>

definition spaces :: "int \<Rightarrow> str" where
  "spaces indent = concat (replicate (nat indent) (u ''  ''))"

text \<open>
  \<open>diff_trees\<close>: \<open>diff_lines\<close> is the concatenation, in the order of the loop, of
  what each key appends. \<open>None\<close> is a \<open>KeyError\<close> raised by a subscript. The
  depth of the nested calls is not bounded here: \<open>diff_trees_rec\<close> below has the
  bound of the interpreter, and returns this report where it returns
  (\<open>diff_trees_rec_returns\<close>).
\<close>

function diff_trees :: "slots \<Rightarrow> tree \<Rightarrow> tree \<Rightarrow> int \<Rightarrow> str list option" where
  "diff_trees slot old_tree new_tree indent =
     map_option concat (those (map (\<lambda>key.
       if contains old_tree key \<and> \<not> contains new_tree key then
         Option.bind (getitem old_tree key) (\<lambda>old_sub.
         map_option (\<lambda>sub_diff. (spaces indent @ u ''- '' @ key) # sub_diff)
           (diff_trees slot old_sub (Tree []) (indent + 1)))
       else if contains new_tree key \<and> \<not> contains old_tree key then
         Option.bind (getitem new_tree key) (\<lambda>new_sub.
         map_option (\<lambda>sub_diff. (spaces indent @ u ''+ '' @ key) # sub_diff)
           (diff_trees slot (Tree []) new_sub (indent + 1)))
       else
         Option.bind (getitem old_tree key) (\<lambda>old_sub.
         Option.bind (getitem new_tree key) (\<lambda>new_sub.
         map_option (\<lambda>child_diff.
             if child_diff \<noteq> [] then (spaces indent @ key) # child_diff else [])
           (diff_trees slot old_sub new_sub (indent + 1)))))
       (union_keys slot old_tree new_tree)))"
  by pat_completeness auto

termination diff_trees
proof (relation "measure (\<lambda>(slot, old_tree, new_tree, indent). size old_tree + size new_tree)",
    goal_cases)
  case 1
  show ?case by simp
next
  case (2 slot old_tree new_tree indent key old_sub)
  then have "size old_sub < size old_tree" by (auto dest: size_getitem)
  with size_tree_pos [of new_tree] show ?case by simp
next
  case (3 slot old_tree new_tree indent key new_sub)
  then have "size new_sub < size new_tree" by (auto dest: size_getitem)
  with size_tree_pos [of old_tree] show ?case by simp
next
  case (4 slot old_tree new_tree indent key old_sub new_sub)
  then have "size old_sub < size old_tree" "size new_sub < size new_tree"
    by (auto dest: size_getitem)
  then show ?case by simp
qed


declare diff_trees.simps [simp del]

text \<open>
  What the body of the loop appends to \<open>diff_lines\<close> for one key, and what the loop
  appends for a sequence of keys.
\<close>

definition diff_key :: "slots \<Rightarrow> tree \<Rightarrow> tree \<Rightarrow> int \<Rightarrow> str \<Rightarrow> str list option" where
  "diff_key slot old_tree new_tree indent key =
     (if contains old_tree key \<and> \<not> contains new_tree key then
        Option.bind (getitem old_tree key) (\<lambda>old_sub.
        map_option (\<lambda>sub_diff. (spaces indent @ u ''- '' @ key) # sub_diff)
          (diff_trees slot old_sub (Tree []) (indent + 1)))
      else if contains new_tree key \<and> \<not> contains old_tree key then
        Option.bind (getitem new_tree key) (\<lambda>new_sub.
        map_option (\<lambda>sub_diff. (spaces indent @ u ''+ '' @ key) # sub_diff)
          (diff_trees slot (Tree []) new_sub (indent + 1)))
      else
        Option.bind (getitem old_tree key) (\<lambda>old_sub.
        Option.bind (getitem new_tree key) (\<lambda>new_sub.
        map_option (\<lambda>child_diff.
            if child_diff \<noteq> [] then (spaces indent @ key) # child_diff else [])
          (diff_trees slot old_sub new_sub (indent + 1)))))"

definition diff_keys :: "slots \<Rightarrow> tree \<Rightarrow> tree \<Rightarrow> int \<Rightarrow> str list \<Rightarrow> str list option" where
  "diff_keys slot old_tree new_tree indent ks =
     map_option concat (those (map (diff_key slot old_tree new_tree indent) ks))"

text \<open>
  The entries of the report before they are rendered as lines: the depth, the marker
  and the command text. \<open>diff_entries\<close> follows \<open>diff_trees\<close> and keeps the three
  apart; \<open>render\<close> is the line that \<open>diff_trees\<close> writes for an entry.
\<close>

datatype marker = Removed | Added | Header

type_synonym entry = "int \<times> marker \<times> str"

fun marker_prefix :: "marker \<Rightarrow> str" where
  "marker_prefix Removed = u ''- ''"
| "marker_prefix Added = u ''+ ''"
| "marker_prefix Header = []"

fun render :: "entry \<Rightarrow> str" where
  "render (depth, m, key) = spaces depth @ marker_prefix m @ key"

function diff_entries :: "slots \<Rightarrow> tree \<Rightarrow> tree \<Rightarrow> int \<Rightarrow> entry list" where
  "diff_entries slot old_tree new_tree indent =
     concat (map (\<lambda>key.
       case (getitem old_tree key, getitem new_tree key) of
         (Some old_sub, None) \<Rightarrow>
           (indent, Removed, key) # diff_entries slot old_sub (Tree []) (indent + 1)
       | (None, Some new_sub) \<Rightarrow>
           (indent, Added, key) # diff_entries slot (Tree []) new_sub (indent + 1)
       | (Some old_sub, Some new_sub) \<Rightarrow>
           (let child_diff = diff_entries slot old_sub new_sub (indent + 1)
            in if child_diff \<noteq> [] then (indent, Header, key) # child_diff else [])
       | (None, None) \<Rightarrow> [])
       (union_keys slot old_tree new_tree))"
  by pat_completeness auto

termination diff_entries
proof (relation "measure (\<lambda>(slot, old_tree, new_tree, indent). size old_tree + size new_tree)",
    goal_cases)
  case 1
  show ?case by simp
next
  case (2 slot old_tree new_tree indent key x y new_sub)
  then have "size new_sub < size new_tree" by (auto dest: size_getitem sym)
  with size_tree_pos [of old_tree] show ?case by simp
next
  case (3 slot old_tree new_tree indent key x y old_sub)
  then have "size old_sub < size old_tree" by (auto dest: size_getitem sym)
  with size_tree_pos [of new_tree] show ?case by simp
next
  case (4 slot old_tree new_tree indent key x y old_sub new_sub)
  then have "size old_sub < size old_tree" "size new_sub < size new_tree"
    by (auto dest: size_getitem sym)
  then show ?case by simp
qed

declare diff_entries.simps [simp del]

text \<open>What \<open>diff_entries\<close> holds for one key.\<close>

definition key_entries :: "slots \<Rightarrow> tree \<Rightarrow> tree \<Rightarrow> int \<Rightarrow> str \<Rightarrow> entry list" where
  "key_entries slot old_tree new_tree indent key =
     (case (getitem old_tree key, getitem new_tree key) of
         (Some old_sub, None) \<Rightarrow>
           (indent, Removed, key) # diff_entries slot old_sub (Tree []) (indent + 1)
       | (None, Some new_sub) \<Rightarrow>
           (indent, Added, key) # diff_entries slot (Tree []) new_sub (indent + 1)
       | (Some old_sub, Some new_sub) \<Rightarrow>
           (let child_diff = diff_entries slot old_sub new_sub (indent + 1)
            in if child_diff \<noteq> [] then (indent, Header, key) # child_diff else [])
       | (None, None) \<Rightarrow> [])"

text \<open>Exchanging the markers of removal and addition.\<close>

fun flip_marker :: "marker \<Rightarrow> marker" where
  "flip_marker Removed = Added"
| "flip_marker Added = Removed"
| "flip_marker Header = Header"

fun flip :: "entry \<Rightarrow> entry" where
  "flip (depth, m, key) = (depth, flip_marker m, key)"

text \<open>
  The entries once more, each with the keys of its parents in place of its depth: an
  entry is reported under the chain of keys that \<open>diff_trees\<close> went down through,
  and its depth is the depth of the call plus the length of this chain.
\<close>

type_synonym located = "str list \<times> marker \<times> str"

function diff_located :: "slots \<Rightarrow> tree \<Rightarrow> tree \<Rightarrow> str list \<Rightarrow> located list" where
  "diff_located slot old_tree new_tree parents =
     concat (map (\<lambda>key.
       case (getitem old_tree key, getitem new_tree key) of
         (Some old_sub, None) \<Rightarrow>
           (parents, Removed, key) # diff_located slot old_sub (Tree []) (parents @ [key])
       | (None, Some new_sub) \<Rightarrow>
           (parents, Added, key) # diff_located slot (Tree []) new_sub (parents @ [key])
       | (Some old_sub, Some new_sub) \<Rightarrow>
           (let child_diff = diff_located slot old_sub new_sub (parents @ [key])
            in if child_diff \<noteq> [] then (parents, Header, key) # child_diff else [])
       | (None, None) \<Rightarrow> [])
       (union_keys slot old_tree new_tree))"
  by pat_completeness auto

termination diff_located
proof (relation "measure (\<lambda>(slot, old_tree, new_tree, parents). size old_tree + size new_tree)",
    goal_cases)
  case 1
  show ?case by simp
next
  case (2 slot old_tree new_tree parents key x y new_sub)
  then have "size new_sub < size new_tree" by (auto dest: size_getitem sym)
  with size_tree_pos [of old_tree] show ?case by simp
next
  case (3 slot old_tree new_tree parents key x y old_sub)
  then have "size old_sub < size old_tree" by (auto dest: size_getitem sym)
  with size_tree_pos [of new_tree] show ?case by simp
next
  case (4 slot old_tree new_tree parents key x y old_sub new_sub)
  then have "size old_sub < size old_tree" "size new_sub < size new_tree"
    by (auto dest: size_getitem sym)
  then show ?case by simp
qed

declare diff_located.simps [simp del]

definition key_located :: "slots \<Rightarrow> tree \<Rightarrow> tree \<Rightarrow> str list \<Rightarrow> str \<Rightarrow> located list" where
  "key_located slot old_tree new_tree parents key =
     (case (getitem old_tree key, getitem new_tree key) of
         (Some old_sub, None) \<Rightarrow>
           (parents, Removed, key) # diff_located slot old_sub (Tree []) (parents @ [key])
       | (None, Some new_sub) \<Rightarrow>
           (parents, Added, key) # diff_located slot (Tree []) new_sub (parents @ [key])
       | (Some old_sub, Some new_sub) \<Rightarrow>
           (let child_diff = diff_located slot old_sub new_sub (parents @ [key])
            in if child_diff \<noteq> [] then (parents, Header, key) # child_diff else [])
       | (None, None) \<Rightarrow> [])"

fun at_depth :: "int \<Rightarrow> located \<Rightarrow> entry" where
  "at_depth d (parents, m, key) = (d + int (length parents), m, key)"

fun flip_located :: "located \<Rightarrow> located" where
  "flip_located (parents, m, key) = (parents, flip_marker m, key)"

text \<open>
  The two calls \<open>diff_trees(a, b)\<close> and \<open>diff_trees(b, a)\<close> iterate their key sets in
  the same order, here and at every pair of dictionaries that they go on to compare:
  \<open>slot\<close> lays out the sets of the first call and \<open>slot'\<close> those of the second.
\<close>

function same_order :: "slots \<Rightarrow> slots \<Rightarrow> tree \<Rightarrow> tree \<Rightarrow> bool" where
  "same_order slot slot' a b \<longleftrightarrow>
     union_keys slot' b a = union_keys slot a b \<and>
     list_all (\<lambda>key.
       case (getitem a key, getitem b key) of
         (Some x, None) \<Rightarrow> same_order slot slot' x (Tree [])
       | (None, Some y) \<Rightarrow> same_order slot slot' (Tree []) y
       | (Some x, Some y) \<Rightarrow> same_order slot slot' x y
       | (None, None) \<Rightarrow> True)
       (union_keys slot a b)"
  by pat_completeness auto

termination same_order
proof (relation "measure (\<lambda>(slot, slot', a, b). size a + size b)", goal_cases)
  case 1
  show ?case by simp
next
  case (2 slot slot' a b key x y new_sub)
  then have "size new_sub < size b" by (auto dest: size_getitem sym)
  with size_tree_pos [of a] show ?case by simp
next
  case (3 slot slot' a b key x y old_sub)
  then have "size old_sub < size a" by (auto dest: size_getitem sym)
  with size_tree_pos [of b] show ?case by simp
next
  case (4 slot slot' a b key x y old_sub new_sub)
  then have "size old_sub < size a" "size new_sub < size b"
    by (auto dest: size_getitem sym)
  then show ?case by simp
qed

declare same_order.simps [simp del]

definition key_same_order :: "slots \<Rightarrow> slots \<Rightarrow> tree \<Rightarrow> tree \<Rightarrow> str \<Rightarrow> bool" where
  "key_same_order slot slot' a b key =
     (case (getitem a key, getitem b key) of
         (Some x, None) \<Rightarrow> same_order slot slot' x (Tree [])
       | (None, Some y) \<Rightarrow> same_order slot slot' (Tree []) y
       | (Some x, Some y) \<Rightarrow> same_order slot slot' x y
       | (None, None) \<Rightarrow> True)"

text \<open>The nodes below the root of a tree with their depths, the children of the root at \<open>depth\<close>.\<close>

fun descendants :: "int \<Rightarrow> tree \<Rightarrow> (int \<times> str) list" where
  "descendants depth (Tree kvs) =
     concat (map (\<lambda>kv. (depth, fst kv) # descendants (depth + 1) (snd kv)) kvs)"

text \<open>
  Three ways to lay the keys out in the hash table, for the examples: in the order in
  which the keys went in (the old keys first, \<open>position\<close> being the place of a key
  in a sequence), the new keys first, and by a number that the key alone determines.
\<close>

definition position :: "str list \<Rightarrow> str \<Rightarrow> nat" where
  "position ks key = length (takeWhile (\<lambda>k. k \<noteq> key) ks)"

definition first_seen :: slots where
  "first_seen old_keys new_keys key = position (old_keys @ new_keys) key"

definition new_first :: slots where
  "new_first old_keys new_keys key = position (new_keys @ old_keys) key"

definition by_code :: slots where
  "by_code old_keys new_keys key = list_encode key"

text \<open>
  The interpreter bounds the depth of nested calls (\<open>sys.getrecursionlimit()\<close>, 1000
  unless it is set, and the program does not set it), and \<open>diff_trees\<close> calls itself
  once for every level of the trees. \<open>diff_trees_rec frames\<close> is \<open>diff_trees\<close> called
  when the interpreter allows \<open>frames\<close> more nested calls: the call takes one of them
  for itself, and with none left it raises \<open>RecursionError\<close>. An exception ends the
  loop at the key that raises it (\<open>extend_all\<close>).
\<close>

datatype error = KeyError | RecursionError

fun extend_all :: "(error + 'a list) list \<Rightarrow> error + 'a list" where
  "extend_all [] = Inr []"
| "extend_all (Inl e # rs) = Inl e"
| "extend_all (Inr xs # rs) = (case extend_all rs of Inl e \<Rightarrow> Inl e | Inr ys \<Rightarrow> Inr (xs @ ys))"

fun diff_trees_rec :: "nat \<Rightarrow> slots \<Rightarrow> tree \<Rightarrow> tree \<Rightarrow> int \<Rightarrow> error + str list" where
  "diff_trees_rec 0 slot old_tree new_tree indent = Inl RecursionError"
| "diff_trees_rec (Suc frames) slot old_tree new_tree indent =
     extend_all (map (\<lambda>key.
       if contains old_tree key \<and> \<not> contains new_tree key then
         (case getitem old_tree key of
            None \<Rightarrow> Inl KeyError
          | Some old_sub \<Rightarrow>
              (case diff_trees_rec frames slot old_sub (Tree []) (indent + 1) of
                 Inl e \<Rightarrow> Inl e
               | Inr sub_diff \<Rightarrow> Inr ((spaces indent @ u ''- '' @ key) # sub_diff)))
       else if contains new_tree key \<and> \<not> contains old_tree key then
         (case getitem new_tree key of
            None \<Rightarrow> Inl KeyError
          | Some new_sub \<Rightarrow>
              (case diff_trees_rec frames slot (Tree []) new_sub (indent + 1) of
                 Inl e \<Rightarrow> Inl e
               | Inr sub_diff \<Rightarrow> Inr ((spaces indent @ u ''+ '' @ key) # sub_diff)))
       else
         (case getitem old_tree key of
            None \<Rightarrow> Inl KeyError
          | Some old_sub \<Rightarrow>
              (case getitem new_tree key of
                 None \<Rightarrow> Inl KeyError
               | Some new_sub \<Rightarrow>
                   (case diff_trees_rec frames slot old_sub new_sub (indent + 1) of
                      Inl e \<Rightarrow> Inl e
                    | Inr child_diff \<Rightarrow>
                        Inr (if child_diff \<noteq> [] then (spaces indent @ key) # child_diff else [])))))
       (union_keys slot old_tree new_tree))"

declare diff_trees_rec.simps(2) [simp del]

text \<open>What the body of the loop of \<open>diff_trees_rec\<close> gives for one key.\<close>

definition key_rec :: "nat \<Rightarrow> slots \<Rightarrow> tree \<Rightarrow> tree \<Rightarrow> int \<Rightarrow> str \<Rightarrow> error + str list" where
  "key_rec frames slot old_tree new_tree indent key =
      (if contains old_tree key \<and> \<not> contains new_tree key then
         (case getitem old_tree key of
            None \<Rightarrow> Inl KeyError
          | Some old_sub \<Rightarrow>
              (case diff_trees_rec frames slot old_sub (Tree []) (indent + 1) of
                 Inl e \<Rightarrow> Inl e
               | Inr sub_diff \<Rightarrow> Inr ((spaces indent @ u ''- '' @ key) # sub_diff)))
       else if contains new_tree key \<and> \<not> contains old_tree key then
         (case getitem new_tree key of
            None \<Rightarrow> Inl KeyError
          | Some new_sub \<Rightarrow>
              (case diff_trees_rec frames slot (Tree []) new_sub (indent + 1) of
                 Inl e \<Rightarrow> Inl e
               | Inr sub_diff \<Rightarrow> Inr ((spaces indent @ u ''+ '' @ key) # sub_diff)))
       else
         (case getitem old_tree key of
            None \<Rightarrow> Inl KeyError
          | Some old_sub \<Rightarrow>
              (case getitem new_tree key of
                 None \<Rightarrow> Inl KeyError
               | Some new_sub \<Rightarrow>
                   (case diff_trees_rec frames slot old_sub new_sub (indent + 1) of
                      Inl e \<Rightarrow> Inl e
                    | Inr child_diff \<Rightarrow>
                        Inr (if child_diff \<noteq> [] then (spaces indent @ key) # child_diff else [])))))"

text \<open>The number of levels of a tree: none for the empty dictionary.\<close>

fun height :: "tree \<Rightarrow> nat" where
  "height (Tree kvs) = foldr max (map (\<lambda>kv. Suc (height (snd kv))) kvs) 0"

text \<open>
  \<open>deep_lines n\<close> is \<open>n\<close> lines, every line indented by one space more than the line
  before it, and \<open>deep_tree n\<close> is \<open>n\<close> dictionaries, one inside the other.
\<close>

fun deep_tree :: "nat \<Rightarrow> tree" where
  "deep_tree 0 = Tree []"
| "deep_tree (Suc n) = Tree [(u ''x'', deep_tree n)]"

definition deep_lines :: "nat \<Rightarrow> str list" where
  "deep_lines n = map (\<lambda>i. replicate i 32 @ u ''x'') [0..<n]"

section \<open>Properties of the tree differ\<close>

lemma contains_getitem: "contains t key \<longleftrightarrow> getitem t key \<noteq> None"
  by (simp add: contains_def getitem_def keys_def map_of_eq_None_iff)

lemma getitem_empty [simp]: "getitem (Tree []) key = None"
  by (simp add: getitem_def)

lemma keys_empty [simp]: "keys (Tree []) = []"
  by (simp add: keys_def)

lemma set_union_keys:
  "set (union_keys slot a b) = set (keys a) \<union> set (keys b)"
  by (simp add: union_keys_def)

lemma distinct_union_keys [simp]: "distinct (union_keys slot a b)"
  by (simp add: union_keys_def)

lemma diff_trees_unfold:
  "diff_trees slot old_tree new_tree indent =
     diff_keys slot old_tree new_tree indent (union_keys slot old_tree new_tree)"
  unfolding diff_keys_def diff_key_def by (subst diff_trees.simps) (rule refl)

lemma those_map_Some: "(\<And>x. x \<in> set xs \<Longrightarrow> f x = Some (g x)) \<Longrightarrow> those (map f xs) = Some (map g xs)"
  by (induction xs) auto


lemma diff_entries_unfold:
  "diff_entries slot old_tree new_tree indent =
     concat (map (key_entries slot old_tree new_tree indent) (union_keys slot old_tree new_tree))"
  unfolding key_entries_def by (subst diff_entries.simps) (rule refl)

lemma diff_keys_Some:
  assumes "\<And>key. key \<in> set ks \<Longrightarrow> diff_key slot a b d key = Some (map render (key_entries slot a b d key))"
  shows "diff_keys slot a b d ks = Some (map render (concat (map (key_entries slot a b d) ks)))"
proof -
  have "those (map (diff_key slot a b d) ks) = Some (map (\<lambda>key. map render (key_entries slot a b d key)) ks)"
    using assms by (rule those_map_Some)
  then show ?thesis by (simp add: diff_keys_def map_concat o_def)
qed

lemma diff_trees_entries:
  "diff_trees slot old_tree new_tree indent =
     Some (map render (diff_entries slot old_tree new_tree indent))"
proof (induction "size old_tree + size new_tree" arbitrary: old_tree new_tree indent rule: less_induct)
  case less
  have "diff_key slot old_tree new_tree indent key =
          Some (map render (key_entries slot old_tree new_tree indent key))"
    if "key \<in> set (union_keys slot old_tree new_tree)" for key
  proof (cases "getitem old_tree key")
    case None
    with that obtain new_sub where n: "getitem new_tree key = Some new_sub"
      by (auto simp: set_union_keys contains_getitem [unfolded contains_def])
    have "size (Tree []) + size new_sub < size old_tree + size new_tree"
      using size_getitem [OF n] size_tree_pos [of old_tree] by simp
    from less [OF this] None n show ?thesis
      by (simp add: diff_key_def key_entries_def contains_getitem)
  next
    case (Some old_sub)
    show ?thesis
    proof (cases "getitem new_tree key")
      case None
      have "size old_sub + size (Tree []) < size old_tree + size new_tree"
        using size_getitem [OF Some] size_tree_pos [of new_tree] by simp
      from less [OF this] None Some show ?thesis
        by (simp add: diff_key_def key_entries_def contains_getitem)
    next
      case (Some new_sub)
      have "size old_sub + size new_sub < size old_tree + size new_tree"
        using size_getitem [OF Some] size_getitem [OF \<open>getitem old_tree key = Some old_sub\<close>]
        by simp
      from less [OF this] Some \<open>getitem old_tree key = Some old_sub\<close> show ?thesis
        by (simp add: diff_key_def key_entries_def contains_getitem Let_def)
    qed
  qed
  then show ?case
    unfolding diff_trees_unfold diff_entries_unfold by (rule diff_keys_Some)
qed


lemma union_keys_mem: "key \<in> set (union_keys slot a b) \<longleftrightarrow> getitem a key \<noteq> None \<or> getitem b key \<noteq> None"
  by (simp add: set_union_keys contains_getitem [unfolded contains_def])

lemma key_entries_empty_iff:
  "key_entries slot a b d key = [] \<longleftrightarrow>
     (case (getitem a key, getitem b key) of
        (Some x, Some y) \<Rightarrow> diff_entries slot x y (d + 1) = []
      | (None, None) \<Rightarrow> True
      | _ \<Rightarrow> False)"
  by (simp add: key_entries_def Let_def split: option.splits)

lemma diff_entries_empty_iff: "diff_entries slot a b d = [] \<longleftrightarrow> tree_eq a b"
proof (induction "size a" arbitrary: a b d rule: less_induct)
  case less
  have sub: "diff_entries slot x y (d + 1) = [] \<longleftrightarrow> tree_eq x y" if "getitem a key = Some x" for key x y
    using less [OF size_getitem [OF that]] .
  show ?case
  proof
    assume e: "diff_entries slot a b d = []"
    then have all: "\<And>key. key \<in> set (keys a) \<union> set (keys b) \<Longrightarrow> key_entries slot a b d key = []"
      by (simp add: diff_entries_unfold set_union_keys)
    have both: "\<exists>x y. getitem a key = Some x \<and> getitem b key = Some y \<and> tree_eq x y"
      if "key \<in> set (keys a) \<union> set (keys b)" for key
      using all [OF that] that sub [of key]
      by (auto simp: key_entries_empty_iff contains_getitem [unfolded contains_def]
          split: option.splits)
    have "set (keys a) = set (keys b)"
      using both by (fastforce simp: contains_getitem [unfolded contains_def])
    moreover have "list_all (\<lambda>key. case (getitem a key, getitem b key) of
                        (Some x, Some y) \<Rightarrow> tree_eq x y | _ \<Rightarrow> False) (keys a)"
      unfolding list_all_iff using both by fastforce
    ultimately show "tree_eq a b" by (subst tree_eq.simps) simp
  next
    assume "tree_eq a b"
    then have k: "set (keys a) = set (keys b)"
      and v: "list_all (\<lambda>key. case (getitem a key, getitem b key) of
                        (Some x, Some y) \<Rightarrow> tree_eq x y | _ \<Rightarrow> False) (keys a)"
      by (subst (asm) tree_eq.simps, simp)+
    have "key_entries slot a b d key = []" if "key \<in> set (union_keys slot a b)" for key
    proof -
      from that k have "key \<in> set (keys a)" by (simp add: set_union_keys)
      with v have "case (getitem a key, getitem b key) of
                        (Some x, Some y) \<Rightarrow> tree_eq x y | _ \<Rightarrow> False"
        by (simp add: list_all_iff)
      then show ?thesis
        using sub [of key] by (auto simp: key_entries_empty_iff split: option.splits)
    qed
    then show "diff_entries slot a b d = []"
      by (simp add: diff_entries_unfold)
  qed
qed

lemma tree_eq_refl: "tree_eq t t"
proof (induction "size t" arbitrary: t rule: less_induct)
  case less
  have "list_all (\<lambda>key. case (getitem t key, getitem t key) of
                        (Some x, Some y) \<Rightarrow> tree_eq x y | _ \<Rightarrow> False) (keys t)"
    unfolding list_all_iff
  proof
    fix key assume "key \<in> set (keys t)"
    then obtain x where x: "getitem t key = Some x"
      by (auto simp: contains_getitem [unfolded contains_def])
    from less [OF size_getitem [OF x]] x
    show "case (getitem t key, getitem t key) of
                        (Some x, Some y) \<Rightarrow> tree_eq x y | _ \<Rightarrow> False" by simp
  qed
  then show ?case by (subst tree_eq.simps) simp
qed

lemma mset_concat_map:
  "mset (concat (map f xs)) = (\<Sum>x\<in>#mset xs. mset (f x))"
  by (induction xs) auto

lemma mset_union_keys_sym: "mset (union_keys slot' b a) = mset (union_keys slot a b)"
  by (rule iffD1 [OF set_eq_iff_mset_eq_distinct]) (auto simp: set_union_keys)

lemma wf_tree_getitem:
  "wf_tree (Tree kvs) \<Longrightarrow> kv \<in> set kvs \<Longrightarrow> getitem (Tree kvs) (fst kv) = Some (snd kv) \<and> wf_tree (snd kv)"
  by (cases kv) (auto simp: getitem_def list_all_iff)

lemma mset_union_keys_empty:
  "wf_tree t \<Longrightarrow> mset (union_keys slot t (Tree [])) = mset (keys t)"
  by (cases t) (simp add: union_keys_def keys_def distinct_remdups_id)

lemma length_descendants: "length (descendants d t) = nodes t"
proof (induction d t rule: descendants.induct)
  case (1 depth kvs)
  then show ?case
    by (simp add: length_concat o_def cong: map_cong)
qed

lemma removed_entries:
  "wf_tree t \<Longrightarrow>
     mset (diff_entries slot t (Tree []) d) =
     mset (map (\<lambda>(depth, key). (depth, Removed, key)) (descendants d t))"
proof (induction d t rule: descendants.induct)
  case (1 depth kvs)
  let ?t = "Tree kvs"
  have "mset (diff_entries slot ?t (Tree []) depth) =
          (\<Sum>key\<in>#mset (keys ?t). mset (key_entries slot ?t (Tree []) depth key))"
    by (simp add: diff_entries_unfold mset_concat_map mset_union_keys_empty [OF 1(2)])
  also have "\<dots> = (\<Sum>kv\<in>#mset kvs. mset (key_entries slot ?t (Tree []) depth (fst kv)))"
    by (simp add: keys_def image_mset.compositionality o_def flip: mset_map)
  also have "\<dots> = (\<Sum>kv\<in>#mset kvs.
       mset (map (\<lambda>(depth, key). (depth, Removed, key)) ((depth, fst kv) # descendants (depth + 1) (snd kv))))"
  proof (rule arg_cong [where f = sum_mset], rule image_mset_cong)
    fix kv assume "kv \<in># mset kvs"
    then have kv: "kv \<in> set kvs" by simp
    from wf_tree_getitem [OF 1(2) kv] 1(1) [OF kv]
    show "mset (key_entries slot ?t (Tree []) depth (fst kv)) =
       mset (map (\<lambda>(depth, key). (depth, Removed, key)) ((depth, fst kv) # descendants (depth + 1) (snd kv)))"
      by (simp add: key_entries_def)
  qed
  also have "\<dots> = mset (map (\<lambda>(depth, key). (depth, Removed, key)) (descendants depth ?t))"
    by (simp add: mset_concat_map map_concat o_def image_mset.compositionality flip: mset_map)
  finally show ?case .
qed

lemma union_keys_split:
  assumes "key \<in> set (union_keys slot a b)"
  shows "\<exists>ks1 ks2. union_keys slot a b = ks1 @ key # ks2 \<and> key \<notin> set ks1 \<and> key \<notin> set ks2"
proof -
  from split_list [OF assms] obtain ks1 ks2 where s: "union_keys slot a b = ks1 @ key # ks2"
    by blast
  with distinct_union_keys [of slot a b] have "key \<notin> set ks1 \<and> key \<notin> set ks2" by simp
  with s show ?thesis by blast
qed

lemma diff_keys_entries:
  "set ks \<subseteq> set (union_keys slot a b) \<Longrightarrow>
     diff_keys slot a b d ks = Some (map render (concat (map (key_entries slot a b d) ks)))"
proof (rule diff_keys_Some)
  fix key assume "set ks \<subseteq> set (union_keys slot a b)" "key \<in> set ks"
  then have k: "key \<in> set (union_keys slot a b)" by blast
  from iffD1 [OF union_keys_mem k]
  have "diff_key slot a b d key = Some (map render (key_entries slot a b d key))"
    by (auto simp: diff_key_def key_entries_def contains_getitem diff_trees_entries Let_def)
  then show "diff_key slot a b d key = Some (map render (key_entries slot a b d key))" .
qed


lemma diff_trees_split:
  assumes "key \<in> set (union_keys slot a b)"
  shows "\<exists>ks1 ks2 before after.
     union_keys slot a b = ks1 @ key # ks2 \<and> key \<notin> set ks1 \<and> key \<notin> set ks2 \<and>
     diff_keys slot a b d ks1 = Some before \<and>
     diff_keys slot a b d ks2 = Some after \<and>
     diff_trees slot a b d = Some (before @ map render (key_entries slot a b d key) @ after)"
proof -
  from union_keys_split [OF assms] obtain ks1 ks2
    where s: "union_keys slot a b = ks1 @ key # ks2" and n: "key \<notin> set ks1" "key \<notin> set ks2"
    by blast
  have "set ks1 \<subseteq> set (union_keys slot a b)" "set ks2 \<subseteq> set (union_keys slot a b)"
    unfolding s by auto
  then have
    "diff_keys slot a b d ks1 = Some (map render (concat (map (key_entries slot a b d) ks1)))"
    "diff_keys slot a b d ks2 = Some (map render (concat (map (key_entries slot a b d) ks2)))"
    by (simp_all add: diff_keys_entries)
  moreover have "diff_trees slot a b d =
      Some (map render (concat (map (key_entries slot a b d) ks1)) @
            map render (key_entries slot a b d key) @
            map render (concat (map (key_entries slot a b d) ks2)))"
    by (simp add: diff_trees_entries diff_entries_unfold s)
  ultimately show ?thesis using s n by blast
qed

lemma wf_tree_sub: "wf_tree t \<Longrightarrow> getitem t key = Some s \<Longrightarrow> wf_tree s"
  by (cases t) (auto simp: getitem_def list_all_iff dest!: map_of_SomeD)

lemma position_Cons: "position (x # ks) key = (if key = x then 0 else Suc (position ks key))"
  by (auto simp: position_def)

lemma sorted_positions: "distinct ks \<Longrightarrow> sorted (map (position ks) ks)"
proof (induction ks)
  case Nil
  show ?case by simp
next
  case (Cons x ks)
  have "map (position (x # ks)) ks = map (\<lambda>key. Suc (position ks key)) ks"
    using Cons.prems by (intro map_cong) (auto simp: position_Cons)
  then have "map (position (x # ks)) (x # ks) = 0 # map (\<lambda>key. Suc (position ks key)) ks"
    by (simp add: position_Cons [of x ks x])
  moreover have "sorted (0 # map (\<lambda>key. Suc (position ks key)) ks)"
    using Cons by (simp add: sorted_map)
  ultimately show ?case by (simp only:)
qed

lemma nth_position: "z \<in> set ks \<Longrightarrow> ks ! position ks z = z"
proof (induction ks)
  case Nil
  then show ?case by simp
next
  case (Cons x ks)
  show ?case
  proof (cases "z = x")
    case True
    then show ?thesis by (simp add: position_Cons)
  next
    case False
    with Cons show ?thesis by (simp add: position_Cons)
  qed
qed

lemma inj_on_position: "inj_on (position ks) (set ks)"
proof (rule inj_onI)
  fix x y assume x: "x \<in> set ks" and y: "y \<in> set ks"
    and e: "position ks x = position ks y"
  have "x = ks ! position ks x" using nth_position [OF x] by (rule sym)
  also have "\<dots> = ks ! position ks y" by (simp only: e)
  also have "\<dots> = y" by (rule nth_position [OF y])
  finally show "x = y" .
qed

lemma union_keys_any_order:
  assumes "distinct ks" and "set ks = set (keys a) \<union> set (keys b)"
  shows "\<exists>slot. union_keys slot a b = ks"
proof -
  let ?f = "position ks"
  let ?xs = "remdups (keys a @ keys b)"
  have s: "set ?xs = set ks" using assms(2) by simp
  have i: "inj_on ?f (set ?xs)" unfolding s by (rule inj_on_position)
  have e: "map ?f (sort_key ?f ?xs) = map ?f ks"
  proof (rule sorted_distinct_set_unique)
    show "sorted (map ?f (sort_key ?f ?xs))" by (rule sorted_sort_key)
    show "sorted (map ?f ks)" by (rule sorted_positions [OF assms(1)])
    show "distinct (map ?f (sort_key ?f ?xs))"
      using i by (simp add: distinct_map)
    show "distinct (map ?f ks)"
      using inj_on_position [of ks] assms(1) by (simp add: distinct_map)
    show "set (map ?f (sort_key ?f ?xs)) = set (map ?f ks)"
      using s by (simp only: set_map set_sort)
  qed
  have "inj_on ?f (set (sort_key ?f ?xs) \<union> set ks)"
    using i by (simp only: set_sort s Un_absorb)
  from iffD1 [OF inj_on_map_eq_map [OF this] e] have "sort_key ?f ?xs = ks" .
  then have "union_keys (\<lambda>old_keys new_keys. ?f) a b = ks" by (simp only: union_keys_def)
  then show ?thesis by (rule exI [of _ "\<lambda>old_keys new_keys. position ks"])
qed

lemma image_mset_sum: "image_mset f (\<Sum>x\<in>#M. g x) = (\<Sum>x\<in>#M. image_mset f (g x))"
  by (induction M) auto

lemma flipped_entries_mset:
  "mset (diff_entries slot' b a d) = image_mset flip (mset (diff_entries slot a b d))"
proof (induction "size a + size b" arbitrary: a b d rule: less_induct)
  case less
  have "mset (key_entries slot' b a d key) = image_mset flip (mset (key_entries slot a b d key))"
    for key
  proof (cases "getitem a key")
    case None
    show ?thesis
    proof (cases "getitem b key")
      case None
      with \<open>getitem a key = None\<close> show ?thesis by (simp add: key_entries_def)
    next
      case (Some y)
      have "size (Tree []) + size y < size a + size b"
        using size_getitem [OF Some] size_tree_pos [of a] by simp
      from less [OF this] None Some show ?thesis by (simp add: key_entries_def)
    qed
  next
    case (Some x)
    show ?thesis
    proof (cases "getitem b key")
      case None
      have "size x + size (Tree []) < size a + size b"
        using size_getitem [OF Some] size_tree_pos [of b] by simp
      from less [OF this] None Some show ?thesis by (simp add: key_entries_def)
    next
      case (Some y)
      have "size x + size y < size a + size b"
        using size_getitem [OF Some] size_getitem [OF \<open>getitem a key = Some x\<close>] by simp
      from less [OF this, of "d + 1"]
      have m: "mset (diff_entries slot' y x (d + 1)) =
                 image_mset flip (mset (diff_entries slot x y (d + 1)))" .
      then have "diff_entries slot' y x (d + 1) = [] \<longleftrightarrow> diff_entries slot x y (d + 1) = []"
        by (metis image_mset_is_empty_iff mset_zero_iff)
      with m Some \<open>getitem a key = Some x\<close> show ?thesis
        by (simp add: key_entries_def Let_def)
    qed
  qed
  then show ?case
    by (simp add: diff_entries_unfold mset_concat_map mset_union_keys_sym [of slot' b a slot]
        image_mset_sum)
qed

lemma same_order_unfold:
  "same_order slot slot' a b \<longleftrightarrow>
     union_keys slot' b a = union_keys slot a b \<and>
     list_all (key_same_order slot slot' a b) (union_keys slot a b)"
  unfolding key_same_order_def by (subst same_order.simps) (rule refl)

lemma flipped_entries_same_order:
  "same_order slot slot' a b \<Longrightarrow> diff_entries slot' b a d = map flip (diff_entries slot a b d)"
proof (induction "size a + size b" arbitrary: a b d rule: less_induct)
  case less
  from less.prems have u: "union_keys slot' b a = union_keys slot a b"
    and ks: "list_all (key_same_order slot slot' a b) (union_keys slot a b)"
    by (simp_all add: same_order_unfold)
  have "key_entries slot' b a d key = map flip (key_entries slot a b d key)"
    if key: "key \<in> set (union_keys slot a b)" for key
  proof -
    from ks key have so: "key_same_order slot slot' a b key" by (simp add: list_all_iff)
    show ?thesis
    proof (cases "getitem a key")
      case None
      show ?thesis
      proof (cases "getitem b key")
        case None
        with \<open>getitem a key = None\<close> show ?thesis by (simp add: key_entries_def)
      next
        case (Some y)
        have "size (Tree []) + size y < size a + size b"
          using size_getitem [OF Some] size_tree_pos [of a] by simp
        from less.hyps [OF this] so None Some show ?thesis
          by (simp add: key_entries_def key_same_order_def)
      qed
    next
      case (Some x)
      show ?thesis
      proof (cases "getitem b key")
        case None
        have "size x + size (Tree []) < size a + size b"
          using size_getitem [OF Some] size_tree_pos [of b] by simp
        from less.hyps [OF this] so None Some show ?thesis
          by (simp add: key_entries_def key_same_order_def)
      next
        case (Some y)
        have "size x + size y < size a + size b"
          using size_getitem [OF Some] size_getitem [OF \<open>getitem a key = Some x\<close>] by simp
        from less.hyps [OF this, of "d + 1"] so Some \<open>getitem a key = Some x\<close> show ?thesis
          by (simp add: key_entries_def key_same_order_def Let_def)
      qed
    qed
  qed
  then have "map (key_entries slot' b a d) (union_keys slot a b) =
      map (\<lambda>key. map flip (key_entries slot a b d key)) (union_keys slot a b)"
    by (simp cong: map_cong)
  then have "concat (map (key_entries slot' b a d) (union_keys slot a b)) =
      concat (map (\<lambda>key. map flip (key_entries slot a b d key)) (union_keys slot a b))"
    by (rule arg_cong)
  also have "\<dots> = map flip (concat (map (key_entries slot a b d) (union_keys slot a b)))"
    by (simp add: map_concat o_def)
  finally show ?case
    by (simp only: diff_entries_unfold [of slot' b a d] diff_entries_unfold [of slot a b d] u)
qed

lemma same_order_global:
  assumes "\<forall>a b. union_keys slot' b a = union_keys slot a b"
  shows "same_order slot slot' a b"
proof (induction "size a + size b" arbitrary: a b rule: less_induct)
  case less
  have "key_same_order slot slot' a b key" for key
  proof (cases "getitem a key")
    case None
    show ?thesis
    proof (cases "getitem b key")
      case None
      with \<open>getitem a key = None\<close> show ?thesis by (simp add: key_same_order_def)
    next
      case (Some y)
      have "size (Tree []) + size y < size a + size b"
        using size_getitem [OF Some] size_tree_pos [of a] by simp
      from less [OF this] None Some show ?thesis by (simp add: key_same_order_def)
    qed
  next
    case (Some x)
    show ?thesis
    proof (cases "getitem b key")
      case None
      have "size x + size (Tree []) < size a + size b"
        using size_getitem [OF Some] size_tree_pos [of b] by simp
      from less [OF this] None Some show ?thesis by (simp add: key_same_order_def)
    next
      case (Some y)
      have "size x + size y < size a + size b"
        using size_getitem [OF Some] size_getitem [OF \<open>getitem a key = Some x\<close>] by simp
      from less [OF this] Some \<open>getitem a key = Some x\<close> show ?thesis
        by (simp add: key_same_order_def)
    qed
  qed
  with assms show ?case by (simp add: same_order_unfold list_all_iff)
qed

lemma diff_located_unfold:
  "diff_located slot old_tree new_tree parents =
     concat (map (key_located slot old_tree new_tree parents) (union_keys slot old_tree new_tree))"
  unfolding key_located_def by (subst diff_located.simps) (rule refl)

lemma entries_located:
  "diff_entries slot a b (d + int (length parents)) = map (at_depth d) (diff_located slot a b parents)"
proof (induction "size a + size b" arbitrary: a b parents rule: less_induct)
  case less
  have ih: "diff_entries slot x y (d + int (length parents) + 1) =
      map (at_depth d) (diff_located slot x y (parents @ [key]))"
    if "size x + size y < size a + size b" for x y key
    using less [OF that, of "parents @ [key]"] by (simp add: add.commute add.left_commute)
  have "key_entries slot a b (d + int (length parents)) key =
          map (at_depth d) (key_located slot a b parents key)" for key
  proof (cases "getitem a key")
    case None
    show ?thesis
    proof (cases "getitem b key")
      case None
      with \<open>getitem a key = None\<close> show ?thesis by (simp add: key_entries_def key_located_def)
    next
      case (Some y)
      have "size (Tree []) + size y < size a + size b"
        using size_getitem [OF Some] size_tree_pos [of a] by simp
      from ih [OF this, of key] None Some show ?thesis
        by (simp add: key_entries_def key_located_def)
    qed
  next
    case (Some x)
    show ?thesis
    proof (cases "getitem b key")
      case None
      have "size x + size (Tree []) < size a + size b"
        using size_getitem [OF Some] size_tree_pos [of b] by simp
      from ih [OF this, of key] None Some show ?thesis
        by (simp add: key_entries_def key_located_def)
    next
      case (Some y)
      have "size x + size y < size a + size b"
        using size_getitem [OF Some] size_getitem [OF \<open>getitem a key = Some x\<close>] by simp
      from ih [OF this, of key] Some \<open>getitem a key = Some x\<close> show ?thesis
        by (simp add: key_entries_def key_located_def Let_def)
    qed
  qed
  then have "key_entries slot a b (d + int (length parents)) =
      (\<lambda>key. map (at_depth d) (key_located slot a b parents key))"
    by (rule ext)
  then show ?case
    by (simp add: diff_entries_unfold diff_located_unfold map_concat o_def)
qed

lemma flipped_located:
  "mset (diff_located slot' b a parents) = image_mset flip_located (mset (diff_located slot a b parents))"
proof (induction "size a + size b" arbitrary: a b parents rule: less_induct)
  case less
  have "mset (key_located slot' b a parents key) =
      image_mset flip_located (mset (key_located slot a b parents key))" for key
  proof (cases "getitem a key")
    case None
    show ?thesis
    proof (cases "getitem b key")
      case None
      with \<open>getitem a key = None\<close> show ?thesis by (simp add: key_located_def)
    next
      case (Some y)
      have "size (Tree []) + size y < size a + size b"
        using size_getitem [OF Some] size_tree_pos [of a] by simp
      from less [OF this] None Some show ?thesis by (simp add: key_located_def)
    qed
  next
    case (Some x)
    show ?thesis
    proof (cases "getitem b key")
      case None
      have "size x + size (Tree []) < size a + size b"
        using size_getitem [OF Some] size_tree_pos [of b] by simp
      from less [OF this] None Some show ?thesis by (simp add: key_located_def)
    next
      case (Some y)
      have "size x + size y < size a + size b"
        using size_getitem [OF Some] size_getitem [OF \<open>getitem a key = Some x\<close>] by simp
      from less [OF this, of "parents @ [key]"]
      have m: "mset (diff_located slot' y x (parents @ [key])) =
                 image_mset flip_located (mset (diff_located slot x y (parents @ [key])))" .
      then have "diff_located slot' y x (parents @ [key]) = [] \<longleftrightarrow>
          diff_located slot x y (parents @ [key]) = []"
        by (metis image_mset_is_empty_iff mset_zero_iff)
      with m Some \<open>getitem a key = Some x\<close> show ?thesis
        by (simp add: key_located_def Let_def)
    qed
  qed
  then show ?case
    by (simp add: diff_located_unfold mset_concat_map mset_union_keys_sym [of slot' b a slot]
        image_mset_sum)
qed

lemma sort_key_inj_unique:
  assumes "inj f" and "distinct xs" and "distinct ys" and "set xs = set ys"
  shows "sort_key f xs = sort_key f ys"
proof -
  have "map f (sort_key f xs) = map f (sort_key f ys)"
  proof (rule sorted_distinct_set_unique)
    show "sorted (map f (sort_key f xs))" "sorted (map f (sort_key f ys))"
      by (rule sorted_sort_key)+
    show "distinct (map f (sort_key f xs))" "distinct (map f (sort_key f ys))"
      using assms by (simp_all add: distinct_map inj_on_subset [OF assms(1)])
    show "set (map f (sort_key f xs)) = set (map f (sort_key f ys))"
      using assms(4) by simp
  qed
  with assms(1) show ?thesis by (simp add: inj_map_eq_map)
qed

lemma union_keys_by_code: "union_keys by_code b a = union_keys by_code a b"
  unfolding union_keys_def by_code_def
  by (rule sort_key_inj_unique [OF inj_list_encode]) auto

lemma same_order_by_code: "same_order by_code by_code a b"
  by (rule same_order_global) (simp add: union_keys_by_code)

lemmas eval_order = same_order_unfold key_same_order_def diff_located_unfold key_located_def
  union_keys_def keys_def getitem_def first_seen_def position_def u_def

lemma diff_trees_rec_Suc:
  "diff_trees_rec (Suc frames) slot old_tree new_tree indent =
     extend_all (map (key_rec frames slot old_tree new_tree indent) (union_keys slot old_tree new_tree))"
  unfolding key_rec_def by (simp add: diff_trees_rec.simps(2))

lemma extend_all_Inr:
  "(\<And>x. x \<in> set xs \<Longrightarrow> f x = Inr (g x)) \<Longrightarrow> extend_all (map f xs) = Inr (concat (map g xs))"
  by (induction xs) simp_all

lemma extend_all_Inl:
  assumes "x \<in> set xs" and "f x = Inl e"
    and "\<And>y e'. y \<in> set xs \<Longrightarrow> f y = Inl e' \<Longrightarrow> e' = e"
  shows "extend_all (map f xs) = Inl e"
  using assms
proof (induction xs)
  case Nil
  then show ?case by simp
next
  case (Cons y ys)
  show ?case
  proof (cases "f y")
    case (Inl e')
    with Cons.prems(3) [of y e'] show ?thesis by simp
  next
    case (Inr out)
    with Cons.prems have "x \<in> set ys" by auto
    then have "extend_all (map f ys) = Inl e"
    proof (rule Cons.IH [OF _ Cons.prems(2)])
      fix z e' assume "z \<in> set ys" and "f z = Inl e'"
      with Cons.prems(3) [of z e'] show "e' = e" by simp
    qed
    with Inr show ?thesis by simp
  qed
qed

lemma extend_all_no:
  "(\<And>x. x \<in> set xs \<Longrightarrow> f x \<noteq> Inl e) \<Longrightarrow> extend_all (map f xs) \<noteq> Inl e"
proof (induction xs)
  case Nil
  then show ?case by simp
next
  case (Cons y ys)
  then have "extend_all (map f ys) \<noteq> Inl e" and "f y \<noteq> Inl e" by simp_all
  then show ?case
    by (cases "f y"; cases "extend_all (map f ys)") simp_all
qed

lemma le_foldr_max: "x \<in> set xs \<Longrightarrow> x \<le> foldr max xs (0::nat)"
  by (induction xs) (auto simp: max_def)

lemma foldr_max_mem: "foldr max xs (0::nat) = 0 \<or> foldr max xs 0 \<in> set xs"
  by (induction xs) (auto simp: max_def)

lemma height_getitem: "getitem t key = Some s \<Longrightarrow> height s < height t"
proof -
  assume g: "getitem t key = Some s"
  obtain kvs where t: "t = Tree kvs" by (cases t)
  from g t have "(key, s) \<in> set kvs" by (simp add: getitem_def map_of_SomeD)
  then have "Suc (height s) \<in> set (map (\<lambda>kv. Suc (height (snd kv))) kvs)" by force
  from le_foldr_max [OF this] t show ?thesis by simp
qed

lemma height_entry:
  assumes "0 < height t"
  shows "\<exists>kv\<in>set (entries t). height t = Suc (height (snd kv))"
proof -
  obtain kvs where t: "t = Tree kvs" by (cases t)
  from foldr_max_mem [of "map (\<lambda>kv. Suc (height (snd kv))) kvs"] assms t
  show ?thesis by auto
qed

lemma key_rec_no_KeyError:
  assumes sub: "\<And>a b. diff_trees_rec frames slot a b (indent + 1) \<noteq> Inl KeyError"
    and key: "key \<in> set (union_keys slot old_tree new_tree)"
  shows "key_rec frames slot old_tree new_tree indent key \<noteq> Inl KeyError"
proof -
  from key have m: "contains old_tree key \<or> contains new_tree key"
    by (simp add: set_union_keys contains_def)
  show ?thesis
  proof (cases "getitem old_tree key")
    case None
    with m obtain y where y: "getitem new_tree key = Some y" by (auto simp: contains_getitem)
    with None sub [of "Tree []" y] show ?thesis
      by (cases "diff_trees_rec frames slot (Tree []) y (indent + 1)")
        (simp_all add: key_rec_def contains_getitem)
  next
    case (Some x)
    show ?thesis
    proof (cases "getitem new_tree key")
      case None
      with Some sub [of x "Tree []"] show ?thesis
        by (cases "diff_trees_rec frames slot x (Tree []) (indent + 1)")
          (simp_all add: key_rec_def contains_getitem)
    next
      case (Some y)
      with \<open>getitem old_tree key = Some x\<close> sub [of x y] show ?thesis
        by (cases "diff_trees_rec frames slot x y (indent + 1)")
          (simp_all add: key_rec_def contains_getitem)
    qed
  qed
qed

lemma diff_trees_rec_no_KeyError:
  "diff_trees_rec frames slot old_tree new_tree indent \<noteq> Inl KeyError"
proof (induction frames arbitrary: old_tree new_tree indent)
  case 0
  show ?case by simp
next
  case (Suc frames)
  show ?case unfolding diff_trees_rec_Suc
    by (rule extend_all_no) (rule key_rec_no_KeyError [OF Suc])
qed

lemma diff_trees_rec_returns:
  "max (height old_tree) (height new_tree) < frames \<Longrightarrow>
   diff_trees_rec frames slot old_tree new_tree indent =
     Inr (map render (diff_entries slot old_tree new_tree indent))"
proof (induction frames arbitrary: old_tree new_tree indent)
  case 0
  then show ?case by simp
next
  case (Suc frames)
  have "key_rec frames slot old_tree new_tree indent key =
      Inr (map render (key_entries slot old_tree new_tree indent key))"
    if "key \<in> set (union_keys slot old_tree new_tree)" for key
  proof -
    from that have m: "contains old_tree key \<or> contains new_tree key"
      by (simp add: set_union_keys contains_def)
    show ?thesis
    proof (cases "getitem old_tree key")
      case None
      with m obtain y where y: "getitem new_tree key = Some y" by (auto simp: contains_getitem)
      from height_getitem [OF y] Suc.prems have "max (height (Tree [])) (height y) < frames"
        by simp
      from Suc.IH [OF this, of "indent + 1"] None y show ?thesis
        by (simp add: key_rec_def key_entries_def contains_getitem)
    next
      case (Some x)
      from height_getitem [OF Some] Suc.prems have hx: "height x < frames" by simp
      show ?thesis
      proof (cases "getitem new_tree key")
        case None
        from hx have "max (height x) (height (Tree [])) < frames" by simp
        from Suc.IH [OF this, of "indent + 1"] None Some show ?thesis
          by (simp add: key_rec_def key_entries_def contains_getitem)
      next
        case (Some y)
        from height_getitem [OF Some] Suc.prems hx have "max (height x) (height y) < frames"
          by simp
        from Suc.IH [OF this, of "indent + 1"] Some \<open>getitem old_tree key = Some x\<close>
        show ?thesis
          by (simp add: key_rec_def key_entries_def contains_getitem Let_def)
      qed
    qed
  qed
  then have "extend_all (map (key_rec frames slot old_tree new_tree indent)
        (union_keys slot old_tree new_tree)) =
      Inr (concat (map (\<lambda>key. map render (key_entries slot old_tree new_tree indent key))
        (union_keys slot old_tree new_tree)))"
    by (rule extend_all_Inr)
  then show ?case
    by (simp add: diff_trees_rec_Suc diff_entries_unfold [of slot old_tree new_tree indent]
        map_concat o_def)
qed

lemma key_rec_overflow:
  assumes ih: "\<And>a b. wf_tree a \<Longrightarrow> wf_tree b \<Longrightarrow> frames \<le> max (height a) (height b) \<Longrightarrow>
      diff_trees_rec frames slot a b (indent + 1) = Inl RecursionError"
    and wf: "wf_tree old_tree" "wf_tree new_tree"
    and kv: "kv \<in> set (entries old_tree) \<or> kv \<in> set (entries new_tree)"
    and h: "frames \<le> height (snd kv)"
  shows "key_rec frames slot old_tree new_tree indent (fst kv) = Inl RecursionError"
proof -
  have get: "getitem t (fst kv) = Some (snd kv) \<and> wf_tree (snd kv)"
    if "wf_tree t" and "kv \<in> set (entries t)" for t
    using that wf_tree_getitem [of "entries t" kv] by (cases t) simp
  have wfs: "wf_tree s" if "wf_tree t" and "getitem t key = Some s" for t s key
    using that by (cases t) (auto simp: getitem_def list_all_iff dest!: map_of_SomeD)
  show ?thesis
  proof (cases "getitem old_tree (fst kv)")
    case None
    with kv get [OF wf(1)] have "kv \<in> set (entries new_tree)" by auto
    from get [OF wf(2) this] have y: "getitem new_tree (fst kv) = Some (snd kv)"
      and w: "wf_tree (snd kv)" by simp_all
    from h have "frames \<le> max (height (Tree [])) (height (snd kv))" by simp
    from ih [OF _ w this] None y show ?thesis
      by (simp add: key_rec_def contains_getitem)
  next
    case (Some x)
    note x = wfs [OF wf(1) Some]
    show ?thesis
    proof (cases "getitem new_tree (fst kv)")
      case None
      with kv get [OF wf(2)] have "kv \<in> set (entries old_tree)" by auto
      from get [OF wf(1) this] Some have "x = snd kv" by simp
      with h have "frames \<le> max (height x) (height (Tree []))" by simp
      from ih [OF x _ this] None Some show ?thesis
        by (simp add: key_rec_def contains_getitem)
    next
      case (Some y)
      note y = wfs [OF wf(2) Some]
      from kv get [OF wf(1)] get [OF wf(2)] Some \<open>getitem old_tree (fst kv) = Some x\<close>
      have "x = snd kv \<or> y = snd kv" by auto
      with h have "frames \<le> max (height x) (height y)" by auto
      from ih [OF x y this] Some \<open>getitem old_tree (fst kv) = Some x\<close> show ?thesis
        by (simp add: key_rec_def contains_getitem)
    qed
  qed
qed

lemma diff_trees_rec_overflow:
  "wf_tree old_tree \<Longrightarrow> wf_tree new_tree \<Longrightarrow> frames \<le> max (height old_tree) (height new_tree) \<Longrightarrow>
   diff_trees_rec frames slot old_tree new_tree indent = Inl RecursionError"
proof (induction frames arbitrary: old_tree new_tree indent)
  case 0
  show ?case by simp
next
  case (Suc frames)
  from Suc.prems(3) have "Suc frames \<le> height old_tree \<or> Suc frames \<le> height new_tree"
    by (simp add: le_max_iff_disj)
  then obtain kv where kv: "kv \<in> set (entries old_tree) \<or> kv \<in> set (entries new_tree)"
    and h: "frames \<le> height (snd kv)"
    using height_entry [of old_tree] height_entry [of new_tree] by fastforce
  have k: "key_rec frames slot old_tree new_tree indent (fst kv) = Inl RecursionError"
    by (rule key_rec_overflow [OF Suc.IH Suc.prems(1,2) kv h])
  from kv have m: "fst kv \<in> set (union_keys slot old_tree new_tree)"
    by (auto simp: set_union_keys keys_def)
  have "e = RecursionError"
    if "key \<in> set (union_keys slot old_tree new_tree)"
      and "key_rec frames slot old_tree new_tree indent key = Inl e" for key e
    using key_rec_no_KeyError [OF diff_trees_rec_no_KeyError that(1), of frames indent] that(2)
    by (cases e) simp_all
  with m k show ?case unfolding diff_trees_rec_Suc by (rule extend_all_Inl)
qed

section \<open>Properties of the tree builder\<close>

lemma heap_ok_distinct: "heap_ok h \<Longrightarrow> a < length h \<Longrightarrow> distinct (map fst (h ! a))"
  by (simp add: heap_ok_def)

lemma heap_ok_child: "heap_ok h \<Longrightarrow> a < length h \<Longrightarrow> (k, c) \<in> set (h ! a) \<Longrightarrow> a < c \<and> c < length h"
  by (fastforce simp: heap_ok_def)

lemma heap_ok_lookup: "heap_ok h \<Longrightarrow> a < length h \<Longrightarrow> map_of (h ! a) k = Some c \<Longrightarrow> a < c \<and> c < length h"
  by (blast dest: map_of_SomeD heap_ok_child)

lemma heap_ok_unique:
  "heap_ok h \<Longrightarrow> a < length h \<Longrightarrow> b < length h \<Longrightarrow> map_of (h ! a) k = Some c \<Longrightarrow>
     map_of (h ! b) k' = Some c \<Longrightarrow> a = b \<and> k = k'"
  unfolding heap_ok_def by (blast dest: map_of_SomeD)

lemma tree_at_ok:
  assumes "heap_ok h" and "a < length h"
  shows "tree_at h a = Tree (map (\<lambda>kv. (fst kv, tree_at h (snd kv))) (h ! a))"
proof -
  have "(if a < snd kv \<and> snd kv < length h then tree_at h (snd kv) else Tree []) = tree_at h (snd kv)"
    if "kv \<in> set (h ! a)" for kv
    using heap_ok_child [OF assms, of "fst kv" "snd kv"] that by simp
  then show ?thesis
    by (subst tree_at.simps) (simp cong: map_cong)
qed

lemma resolve_append:
  "resolve h a (p @ q) = (case resolve h a p of None \<Rightarrow> None | Some b \<Rightarrow> resolve h b q)"
  by (induction p arbitrary: a) (auto split: option.splits)

lemma resolve_bound:
  "heap_ok h \<Longrightarrow> a < length h \<Longrightarrow> resolve h a p = Some b \<Longrightarrow>
     a \<le> b \<and> b < length h \<and> (p \<noteq> [] \<longrightarrow> a < b)"
proof (induction p arbitrary: a)
  case Nil
  then show ?case by simp
next
  case (Cons k p)
  from Cons.prems obtain c where c: "map_of (h ! a) k = Some c" "resolve h c p = Some b"
    by (auto split: option.splits)
  from heap_ok_lookup [OF Cons.prems(1,2) c(1)] Cons.IH [OF Cons.prems(1) _ c(2)]
  show ?case by auto
qed

lemma resolve_unique:
  "heap_ok h \<Longrightarrow> a < length h \<Longrightarrow> resolve h a p = Some b \<Longrightarrow> resolve h a q = Some b \<Longrightarrow> p = q"
proof (induction p arbitrary: q b rule: rev_induct)
  case Nil
  then have "b = a" by simp
  with resolve_bound [OF Nil(1,2) Nil(4)] show ?case by auto
next
  case (snoc k p)
  from snoc.prems(3) obtain x where x: "resolve h a p = Some x" "map_of (h ! x) k = Some b"
    by (auto simp: resolve_append split: option.splits)
  from resolve_bound [OF snoc.prems(1,2) x(1)] heap_ok_lookup [OF snoc.prems(1) _ x(2)]
  have xb: "x < length h" "a < b" by auto
  show ?case
  proof (cases q rule: rev_cases)
    case Nil
    with snoc.prems(4) xb show ?thesis by simp
  next
    case (snoc q' k')
    with snoc.prems(4) obtain y where y: "resolve h a q' = Some y" "map_of (h ! y) k' = Some b"
      by (auto simp: resolve_append split: option.splits)
    from resolve_bound [OF snoc.prems(1,2) y(1)] have "y < length h" by simp
    from heap_ok_unique [OF snoc.prems(1) xb(1) this x(2) y(2)] have "x = y" "k = k'" by auto
    with snoc.IH [OF snoc.prems(1,2) x(1), of q'] y(1) snoc show ?thesis by simp
  qed
qed

lemma length_extend [simp]: "length (extend h pa cmd) = Suc (length h)"
  by (simp add: extend_def)

lemma nth_extend:
  "pa < length h \<Longrightarrow> a \<le> length h \<Longrightarrow>
     extend h pa cmd ! a =
       (if a = pa then setitem (h ! pa) cmd (length h) else if a = length h then [] else h ! a)"
  by (auto simp: extend_def nth_append nth_list_update)

lemma set_setitem: "set (setitem d k v) \<subseteq> insert (k, v) (set d)"
  by (induction d k v rule: setitem.induct) auto

lemma map_of_setitem: "map_of (setitem d k v) = (map_of d)(k \<mapsto> v)"
  by (induction d k v rule: setitem.induct) auto

lemma keys_setitem: "fst ` set (setitem d k v) = insert k (fst ` set d)"
  by (induction d k v rule: setitem.induct) auto

lemma distinct_setitem: "distinct (map fst d) \<Longrightarrow> distinct (map fst (setitem d k v))"
  by (induction d k v rule: setitem.induct) (auto simp: keys_setitem)

lemma setitem_same: "map_of d k = Some v \<Longrightarrow> setitem d k v = d"
  by (induction d k v rule: setitem.induct) (auto split: if_splits)

lemma extend_entry:
  assumes "pa < length h" and "a \<le> length h" and "(k, c) \<in> set (extend h pa cmd ! a)"
  shows "(a < length h \<and> (k, c) \<in> set (h ! a)) \<or> (a = pa \<and> k = cmd \<and> c = length h)"
  using assms set_setitem [of "h ! pa" cmd "length h"]
  by (auto simp: nth_extend split: if_splits)

lemma heap_ok_extend:
  assumes "heap_ok h" and "pa < length h"
  shows "heap_ok (extend h pa cmd)"
proof -
  let ?h = "extend h pa cmd"
  have d: "distinct (map fst (?h ! a))" if "a < length ?h" for a
    using that assms heap_ok_distinct [OF assms(1)]
    by (auto simp: nth_extend distinct_setitem)
  have c: "a < snd kv \<and> snd kv < length ?h" if "a < length ?h" "kv \<in> set (?h ! a)" for a kv
  proof -
    from that have "a \<le> length h" "(fst kv, snd kv) \<in> set (?h ! a)" by simp_all
    from extend_entry [OF assms(2) this] heap_ok_child [OF assms(1), of a "fst kv" "snd kv"]
      assms(2)
    show ?thesis by auto
  qed
  have u: "a = b \<and> k = k'"
    if "a < length ?h" "b < length ?h" "(k, c) \<in> set (?h ! a)" "(k', c) \<in> set (?h ! b)"
    for a b k k' c
  proof -
    from that have a: "a \<le> length h" and b: "b \<le> length h" by simp_all
    from extend_entry [OF assms(2) a that(3)] extend_entry [OF assms(2) b that(4)]
    show ?thesis
      using heap_ok_child [OF assms(1), of a k c] heap_ok_child [OF assms(1), of b k' c] assms(1)
      unfolding heap_ok_def by (elim disjE conjE) (blast, simp_all)
  qed
  show ?thesis
    unfolding heap_ok_def using d c u by blast
qed

lemma resolve_extend:
  assumes "heap_ok h" and "pa < length h"
  shows "a < length h \<Longrightarrow> resolve h a p = Some pa \<Longrightarrow> resolve h a q = Some b \<Longrightarrow>
     \<exists>z. p = q @ z \<Longrightarrow> resolve (extend h pa cmd) a q = Some b"
proof (induction q arbitrary: a p)
  case Nil
  then show ?case by simp
next
  case (Cons k q)
  from Cons.prems(4) obtain z where p: "p = k # (q @ z)" by auto
  from Cons.prems(3) obtain c where c: "map_of (h ! a) k = Some c" "resolve h c q = Some b"
    by (auto split: option.splits)
  from Cons.prems(2) p c have cp: "resolve h c (q @ z) = Some pa" by simp
  from heap_ok_lookup [OF assms(1) Cons.prems(1) c(1)] have ac: "a < c" "c < length h" by auto
  from resolve_bound [OF assms(1) ac(2) cp] ac have "a \<noteq> pa" by simp
  with Cons.prems(1) assms(2) have "extend h pa cmd ! a = h ! a" by (simp add: nth_extend)
  with c Cons.IH [OF ac(2) cp c(2)] show ?case by simp
qed

lemma tree_at_extend_frame:
  assumes "heap_ok h" and "pa < length h"
  shows "a < length h \<Longrightarrow> (\<And>q. resolve h a q \<noteq> Some pa) \<Longrightarrow>
     tree_at (extend h pa cmd) a = tree_at h a"
proof (induction "length h - a" arbitrary: a rule: less_induct)
  case less
  from less.prems(2) [of "[]"] have "a \<noteq> pa" by simp
  with less.prems(1) assms(2) have nth: "extend h pa cmd ! a = h ! a" by (simp add: nth_extend)
  have "tree_at (extend h pa cmd) (snd kv) = tree_at h (snd kv)" if "kv \<in> set (h ! a)" for kv
  proof -
    from that have m: "map_of (h ! a) (fst kv) = Some (snd kv)"
      using heap_ok_distinct [OF assms(1) less.prems(1)] by simp
    from heap_ok_lookup [OF assms(1) less.prems(1) m] have c: "a < snd kv" "snd kv < length h"
      by auto
    have "resolve h (snd kv) q \<noteq> Some pa" for q
      using less.prems(2) [of "fst kv # q"] m by simp
    with less.hyps [of "snd kv"] c show ?thesis by simp
  qed
  then show ?case
    using less.prems(1)
    by (simp add: tree_at_ok [OF assms(1)] tree_at_ok [OF heap_ok_extend [OF assms]] nth
        cong: map_cong)
qed

lemma entries_tree_at:
  "heap_ok h \<Longrightarrow> a < length h \<Longrightarrow>
     entries (tree_at h a) = map (\<lambda>kv. (fst kv, tree_at h (snd kv))) (h ! a)"
  by (simp add: tree_at_ok)

lemma map_of_map_snd: "map_of (map (\<lambda>kv. (fst kv, f (snd kv))) d) k = map_option f (map_of d k)"
  by (induction d) auto

lemma getitem_tree_at:
  "heap_ok h \<Longrightarrow> a < length h \<Longrightarrow> getitem (tree_at h a) k = map_option (tree_at h) (map_of (h ! a) k)"
  by (simp add: getitem_def entries_tree_at map_of_map_snd)

lemma put_node_Nil: "put_node t [] cmd = Tree (setitem (entries t) cmd (Tree []))"
  by (simp add: put_node_def)

lemma put_node_Cons:
  assumes "getitem t k = Some s"
  shows "put_node t (k # p) cmd = Tree (setitem (entries t) k (put_node s p cmd))"
proof (cases "subtree s p")
  case None
  with assms have "put_node t (k # p) cmd = t" "put_node s p cmd = s"
    by (simp_all add: put_node_def)
  moreover from assms have "setitem (entries t) k s = entries t"
    by (simp add: getitem_def setitem_same)
  ultimately show ?thesis by simp
next
  case (Some q)
  with assms show ?thesis by (simp add: put_node_def)
qed

lemma put_node_missing: "getitem t k = None \<Longrightarrow> put_node t (k # p) cmd = t"
  by (simp add: put_node_def)

lemma map_setitem:
  assumes "distinct (map fst d)"
    and "\<And>k' c. (k', c) \<in> set d \<Longrightarrow> k' \<noteq> k \<Longrightarrow> f c = g c"
  shows "map (\<lambda>kv. (fst kv, f (snd kv))) (setitem d k v) =
         setitem (map (\<lambda>kv. (fst kv, g (snd kv))) d) k (f v)"
  using assms
proof (induction d)
  case Nil
  then show ?case by simp
next
  case (Cons e d)
  obtain k' x where e: "e = (k', x)" by (cases e)
  show ?case
  proof (cases "k' = k")
    case True
    have "map (\<lambda>kv. (fst kv, f (snd kv))) d = map (\<lambda>kv. (fst kv, g (snd kv))) d"
    proof (rule map_cong [OF refl])
      fix kv assume kv: "kv \<in> set d"
      with Cons.prems(1) True e have "fst kv \<noteq> k" by force
      with Cons.prems(2) [of "fst kv" "snd kv"] kv
      show "(fst kv, f (snd kv)) = (fst kv, g (snd kv))" by simp
    qed
    with True e show ?thesis by simp
  next
    case False
    from Cons.prems(2) [of k' x] False e have "f x = g x" by simp
    moreover have "map (\<lambda>kv. (fst kv, f (snd kv))) (setitem d k v) =
         setitem (map (\<lambda>kv. (fst kv, g (snd kv))) d) k (f v)"
      using Cons.prems by (intro Cons.IH) auto
    ultimately show ?thesis using False e by simp
  qed
qed

lemma tree_at_extend:
  assumes "heap_ok h" and "pa < length h"
  shows "a < length h \<Longrightarrow> resolve h a p = Some pa \<Longrightarrow>
     tree_at (extend h pa cmd) a = put_node (tree_at h a) p cmd"
proof (induction p arbitrary: a)
  case Nil
  let ?h = "extend h pa cmd"
  from Nil have [simp]: "a = pa" by simp
  have ok: "heap_ok ?h" by (rule heap_ok_extend [OF assms])
  have new: "tree_at ?h (length h) = Tree []"
    using assms(2) by (simp add: tree_at_ok [OF ok] nth_extend)
  have frame: "tree_at ?h c = tree_at h c" if "(k', c) \<in> set (h ! pa)" for k' c
  proof (rule tree_at_extend_frame [OF assms])
    from heap_ok_child [OF assms that] show c: "c < length h" by simp
    fix q show "resolve h c q \<noteq> Some pa"
      using resolve_bound [OF assms(1) c, of q pa] heap_ok_child [OF assms that] by auto
  qed
  have "tree_at ?h pa = Tree (map (\<lambda>kv. (fst kv, tree_at ?h (snd kv))) (setitem (h ! pa) cmd (length h)))"
    using assms(2) by (simp add: tree_at_ok [OF ok] nth_extend)
  also have "\<dots> = Tree (setitem (map (\<lambda>kv. (fst kv, tree_at h (snd kv))) (h ! pa)) cmd (Tree []))"
    using map_setitem [of "h ! pa" cmd "tree_at ?h" "tree_at h" "length h"]
      heap_ok_distinct [OF assms] frame new by simp
  finally show ?case
    using assms by (simp add: put_node_Nil entries_tree_at)
next
  case (Cons k p)
  let ?h = "extend h pa cmd"
  have ok: "heap_ok ?h" by (rule heap_ok_extend [OF assms])
  from Cons.prems(2) obtain c where c: "map_of (h ! a) k = Some c" "resolve h c p = Some pa"
    by (auto split: option.splits)
  from heap_ok_lookup [OF assms(1) Cons.prems(1) c(1)] have ac: "a < c" "c < length h" by auto
  from resolve_bound [OF assms(1) ac(2) c(2)] ac have "a \<noteq> pa" by simp
  with Cons.prems(1) assms(2) have nth: "?h ! a = h ! a" by (simp add: nth_extend)
  have frame: "tree_at ?h c' = tree_at h c'" if "(k', c') \<in> set (h ! a)" "k' \<noteq> k" for k' c'
  proof (rule tree_at_extend_frame [OF assms])
    from heap_ok_child [OF assms(1) Cons.prems(1) that(1)] show c': "c' < length h" by simp
    from that(1) have m: "map_of (h ! a) k' = Some c'"
      using heap_ok_distinct [OF assms(1) Cons.prems(1)] by simp
    fix q show "resolve h c' q \<noteq> Some pa"
    proof
      assume "resolve h c' q = Some pa"
      with m have "resolve h a (k' # q) = Some pa" by simp
      from resolve_unique [OF assms(1) Cons.prems(1) this Cons.prems(2)] that(2)
      show False by simp
    qed
  qed
  have "tree_at ?h a = Tree (map (\<lambda>kv. (fst kv, tree_at ?h (snd kv))) (setitem (h ! a) k c))"
    using Cons.prems(1) by (simp add: tree_at_ok [OF ok] nth setitem_same [OF c(1)])
  also have "\<dots> = Tree (setitem (map (\<lambda>kv. (fst kv, tree_at h (snd kv))) (h ! a)) k (tree_at ?h c))"
    using map_setitem [of "h ! a" k "tree_at ?h" "tree_at h" c]
      heap_ok_distinct [OF assms(1) Cons.prems(1)] frame by simp
  also have "\<dots> = put_node (tree_at h a) (k # p) cmd"
    using Cons.IH [OF ac(2) c(2)] c(1) Cons.prems(1) assms(1)
    by (simp add: put_node_Cons [of _ _ "tree_at h c"] getitem_tree_at entries_tree_at)
  finally show ?case .
qed

lemma pop_to_pop_to: "d \<le> i \<Longrightarrow> pop_to (pop_to st i) d = pop_to st d"
  by (induction st i rule: pop_to.induct) auto

lemma pop_to_suffix: "\<exists>ys. st = ys @ pop_to st d"
proof (induction st d rule: pop_to.induct)
  case (1 indent)
  show ?case by simp
next
  case (2 i r stack indent)
  show ?case
  proof (cases "indent \<le> i")
    case True
    with 2 obtain ys where "stack = ys @ pop_to stack indent" by auto
    then have "(i, r) # stack = ((i, r) # ys) @ pop_to stack indent" by simp
    with True show ?thesis by (metis pop_to.simps(2))
  next
    case False
    then show ?thesis by (intro exI [of _ "[]"]) simp
  qed
qed

lemma chain_append: "chain (ys @ st) \<Longrightarrow> chain st"
  by (induction ys) auto

lemma chain_pop_to: "chain st \<Longrightarrow> chain (pop_to st d)"
  using pop_to_suffix [of st d] chain_append by metis

lemma nesting_stack_top:
  assumes "0 \<le> d"
  shows "\<exists>i rest. pop_to (nesting_stack before) d = (i, nesting_path d before) # rest"
proof (induction before)
  case Nil
  from assms show ?case by simp
next
  case (Cons e before)
  obtain i c where e: "e = (i, c)" by (cases e)
  show ?case
  proof (cases "d \<le> i")
    case True
    with Cons e show ?thesis by (simp add: pop_to_pop_to)
  next
    case False
    with e show ?thesis by simp
  qed
qed

lemma chain_nesting_stack:
  assumes "\<forall>e\<in>set before. 0 \<le> fst e"
  shows "chain (nesting_stack before)"
  using assms
proof (induction before)
  case Nil
  show ?case by simp
next
  case (Cons e before)
  obtain i c where e: "e = (i, c)" by (cases e)
  from Cons.prems e have i: "0 \<le> i" by simp
  from nesting_stack_top [OF i, of before] obtain j rest
    where p: "pop_to (nesting_stack before) i = (j, nesting_path i before) # rest" by blast
  from Cons have "chain (nesting_stack before)" by simp
  then have c: "chain (pop_to (nesting_stack before) i)" by (rule chain_pop_to)
  with p have "\<forall>e'\<in>set rest. \<exists>z. nesting_path i before = snd e' @ z" by simp
  then have "\<forall>e'\<in>set ((j, nesting_path i before) # rest). \<exists>z. nesting_path i before @ [c] = snd e' @ z"
    by auto
  with c p e show ?case by simp
qed

lemma pop_to_rel:
  "list_all2 (\<lambda>e e'. fst e = fst e' \<and> R (snd e) (snd e')) st st' \<Longrightarrow>
   list_all2 (\<lambda>e e'. fst e = fst e' \<and> R (snd e) (snd e')) (pop_to st d) (pop_to st' d)"
proof (induction st arbitrary: st')
  case Nil
  then show ?case by simp
next
  case (Cons e st)
  then obtain e' st'' where s: "st' = e' # st''" "fst e = fst e'" "R (snd e) (snd e')"
    "list_all2 (\<lambda>e e'. fst e = fst e' \<and> R (snd e) (snd e')) st st''"
    by (auto simp: list_all2_Cons1)
  obtain i r where e: "e = (i, r)" by (cases e)
  obtain i' r' where e': "e' = (i', r')" by (cases e')
  from s e e' Cons.IH [OF s(4)] show ?case by auto
qed

lemma indent_of_nonneg: "0 \<le> indent_of line"
  by (simp add: indent_of_def lstrip_def length_dropWhile_le)

lemma sim_step:
  assumes "sim h st before" and "0 \<le> d" and "\<forall>e\<in>set before. 0 \<le> fst e"
  shows "\<exists>i pa below. pop_to st d = (i, pa) # below \<and> pa < length h \<and>
           sim (extend h pa c) ((d, length h) # (i, pa) # below) ((d, c) # before)"
proof -
  let ?R = "\<lambda>h e e'. fst e = fst e' \<and> resolve h 0 (snd e') = Some (snd e)"
  from assms(1) have ok: "heap_ok h" and len: "0 < length h"
    and tree: "tree_at h 0 = nesting_tree before"
    and rel: "list_all2 (?R h) st (nesting_stack before)"
    by (simp_all add: sim_def)
  let ?p = "nesting_path d before"
  from nesting_stack_top [OF assms(2), of before] obtain i prest
    where pp: "pop_to (nesting_stack before) d = (i, ?p) # prest" by blast
  from pop_to_rel [of "\<lambda>a p. resolve h 0 p = Some a" st "nesting_stack before" d] rel
  have rel': "list_all2 (?R h) (pop_to st d) ((i, ?p) # prest)"
    by (simp add: pp)
  then obtain pa below where ps: "pop_to st d = (i, pa) # below"
    and pa: "resolve h 0 ?p = Some pa" and rb: "list_all2 (?R h) below prest"
    by (cases "pop_to st d") auto
  from resolve_bound [OF ok len pa] have pal: "pa < length h" by simp
  let ?h = "extend h pa c"
  have ok': "heap_ok ?h" by (rule heap_ok_extend [OF ok pal])
  have tree': "tree_at ?h 0 = nesting_tree ((d, c) # before)"
    using tree_at_extend [OF ok pal len pa, of c] tree by simp
  have ch: "chain ((i, ?p) # prest)"
    using chain_pop_to [OF chain_nesting_stack [OF assms(3)], of d] pp by simp
  have keep: "resolve ?h 0 q = Some a" if "resolve h 0 q = Some a" "\<exists>z. ?p = q @ z" for q a
    using resolve_extend [OF ok pal len pa that] .
  have top: "resolve ?h 0 (?p @ [c]) = Some (length h)"
    using keep [of ?p pa] pa pal
    by (simp add: resolve_append nth_extend map_of_setitem)
  have "list_all2 (?R ?h) ((i, pa) # below) ((i, ?p) # prest)"
  proof (rule list.rel_mono_strong [OF rel' [unfolded ps]])
    fix e e' assume "e \<in> set ((i, pa) # below)" "e' \<in> set ((i, ?p) # prest)" "?R h e e'"
    moreover from this(2) ch have "\<exists>z. ?p = snd e' @ z" by auto
    ultimately show "?R ?h e e'" using keep by simp
  qed
  with top pp have "list_all2 (?R ?h) ((d, length h) # (i, pa) # below) (nesting_stack ((d, c) # before))"
    by simp
  with ok' tree' have "sim ?h ((d, length h) # (i, pa) # below) ((d, c) # before)"
    by (simp add: sim_def)
  with ps pal show ?thesis by blast
qed

lemma build_line_skipped: "skipped line \<Longrightarrow> build_line line state = Some state"
  by (cases state) (simp add: build_line_def)

lemma build_line_extend:
  assumes "\<not> skipped line" and "pop_to st (indent_of line) = (i, pa) # below"
  shows "build_line line (h, st) =
     Some (extend h pa (command line), (indent_of line, length h) # (i, pa) # below)"
  using assms by (simp add: build_line_def Let_def pop_to_pop_to extend_def)

lemma build_lines_append:
  "build_lines (xs @ ys) state =
     (case build_lines xs state of None \<Rightarrow> None | Some state' \<Rightarrow> build_lines ys state')"
  by (induction xs arbitrary: state) (auto split: option.splits)

lemma config_items_snoc:
  "config_items (xs @ [line]) =
     config_items xs @ (if skipped line then [] else [(indent_of line, command line)])"
  by (simp add: config_items_def)

lemma config_items_nonneg: "\<forall>e\<in>set (config_items xs). 0 \<le> fst e"
  by (auto simp: config_items_def indent_of_nonneg)

lemma sim_init: "sim [[]] [(- 1, 0)] []"
proof -
  have "heap_ok [[]]" by (simp add: heap_ok_def)
  then show ?thesis by (simp add: sim_def tree_at_ok)
qed

lemma build_lines_sim:
  "\<exists>h st. build_lines config_lines ([[]], [(- 1, 0)]) = Some (h, st) \<and>
     sim h st (rev (config_items config_lines))"
proof (induction config_lines rule: rev_induct)
  case Nil
  show ?case using sim_init by (simp add: config_items_def)
next
  case (snoc line xs)
  then obtain h st where b: "build_lines xs ([[]], [(- 1, 0)]) = Some (h, st)"
    and s: "sim h st (rev (config_items xs))" by blast
  show ?case
  proof (cases "skipped line")
    case True
    with b s show ?thesis
      by (simp add: build_lines_append build_line_skipped config_items_snoc)
  next
    case False
    from config_items_nonneg [of xs] have "\<forall>e\<in>set (rev (config_items xs)). 0 \<le> fst e" by simp
    from sim_step [OF s indent_of_nonneg this, of line "command line"] obtain i pa below
      where p: "pop_to st (indent_of line) = (i, pa) # below"
        and s': "sim (extend h pa (command line)) ((indent_of line, length h) # (i, pa) # below)
           ((indent_of line, command line) # rev (config_items xs))" by blast
    from b build_line_extend [OF False p, of h] s' False show ?thesis
      by (simp add: build_lines_append config_items_snoc)
  qed
qed

lemma build_tree_nesting: "build_tree config_lines = Some (nesting_tree (rev (config_items config_lines)))"
  using build_lines_sim [of config_lines] by (auto simp: build_tree_def sim_def)

lemma dropWhile_append_keep:
  "ys \<noteq> [] \<Longrightarrow> \<not> P (hd ys) \<Longrightarrow> dropWhile P (xs @ ys) = dropWhile P xs @ ys"
  by (induction xs) (auto simp: neq_Nil_conv)

lemma rstrip_rstrip: "rstrip (rstrip s) = rstrip s"
  by (simp add: rstrip_def)

lemma rstrip_Nil: "\<forall>c\<in>set s. isspace c \<Longrightarrow> rstrip s = []"
  by (simp add: rstrip_def dropWhile_eq_Nil_conv)

lemma rstrip_append_keep: "\<not> isspace x \<Longrightarrow> rstrip (a @ x # m) = a @ x # rstrip m"
proof -
  assume x: "\<not> isspace x"
  have "dropWhile isspace (rev m @ (x # rev a)) = dropWhile isspace (rev m) @ (x # rev a)"
    by (rule dropWhile_append_keep) (use x in simp_all)
  then show ?thesis by (simp add: rstrip_def)
qed

lemma lstrip_rstrip: "lstrip (rstrip s) = rstrip (lstrip s)"
proof (cases "dropWhile isspace s")
  case Nil
  then have "\<forall>c\<in>set s. isspace c" by (simp add: dropWhile_eq_Nil_conv)
  then have "rstrip s = []" by (rule rstrip_Nil)
  moreover from Nil have "lstrip s = []" by (simp add: lstrip_def)
  moreover have "lstrip [] = rstrip []" by (simp add: lstrip_def rstrip_def)
  ultimately show ?thesis by (simp only:)
next
  case (Cons x m)
  have "\<not> isspace (hd (dropWhile isspace s))"
    by (rule hd_dropWhile) (simp add: Cons)
  then have x: "\<not> isspace x" by (simp add: Cons)
  let ?a = "takeWhile isspace s"
  have s: "?a @ x # m = s"
    using takeWhile_dropWhile_id [of isspace s] by (simp only: Cons)
  have r: "rstrip s = ?a @ x # rstrip m"
    using rstrip_append_keep [OF x, of ?a m] by (simp only: s)
  have r': "rstrip (x # m) = x # rstrip m"
    using rstrip_append_keep [OF x, of "[]" m] by simp
  have "dropWhile isspace (?a @ x # rstrip m) = dropWhile isspace (x # rstrip m)"
    by (rule dropWhile_append2) (rule set_takeWhileD [THEN conjunct2])
  then have "lstrip (rstrip s) = x # rstrip m"
    using x by (simp add: r lstrip_def)
  moreover have "rstrip (lstrip s) = x # rstrip m"
    by (simp add: lstrip_def Cons r')
  ultimately show ?thesis by simp
qed

lemma strip_rstrip: "strip (rstrip s) = strip s"
  by (simp add: strip_def lstrip_rstrip rstrip_rstrip)

lemma skipped_iff: "skipped line \<longleftrightarrow> strip line = [] \<or> strip line = u ''!''"
  by (simp add: skipped_def Let_def strip_rstrip lstrip_rstrip) (simp add: strip_def)

lemma command_strip: "command line = strip line"
  by (simp add: command_def strip_rstrip)

lemma indent_of_leading: "indent_of line = int (length (takeWhile isspace line))"
proof -
  have "length line = length (takeWhile isspace line) + length (dropWhile isspace line)"
    by (metis length_append takeWhile_dropWhile_id)
  then show ?thesis by (simp add: indent_of_def lstrip_def)
qed

lemma build_lines_filter:
  "build_lines (filter (\<lambda>line. \<not> skipped line) config_lines) state = build_lines config_lines state"
  by (induction config_lines arbitrary: state) (auto simp: build_line_skipped split: option.splits)

lemma build_tree_filter:
  "build_tree (filter (\<lambda>line. \<not> skipped line) config_lines) = build_tree config_lines"
  by (simp add: build_tree_def build_lines_filter)

lemma pop_to_sentinel:
  "0 \<le> d \<Longrightarrow> st \<noteq> [] \<Longrightarrow> last st = (- 1, r) \<Longrightarrow>
     pop_to st d \<noteq> [] \<and> last (pop_to st d) = (- 1, r)"
  by (induction st d rule: pop_to.induct) (auto split: if_splits)

lemma build_line_sentinel:
  assumes "st \<noteq> []" and "last st = (- 1, 0)"
  shows "\<exists>h' st'. build_line line (h, st) = Some (h', st') \<and> st' \<noteq> [] \<and> last st' = (- 1, 0)"
proof (cases "skipped line")
  case True
  with assms show ?thesis by (simp add: build_line_skipped)
next
  case False
  from pop_to_sentinel [OF indent_of_nonneg assms, of line]
  obtain i pa below where p: "pop_to st (indent_of line) = (i, pa) # below"
    and l: "last ((i, pa) # below) = (- 1, 0)"
    by (cases "pop_to st (indent_of line)") auto
  from build_line_extend [OF False p, of h] l show ?thesis by simp
qed

lemma build_lines_sentinel:
  "st \<noteq> [] \<Longrightarrow> last st = (- 1, 0) \<Longrightarrow>
     \<exists>h' st'. build_lines config_lines (h, st) = Some (h', st') \<and> st' \<noteq> [] \<and> last st' = (- 1, 0)"
proof (induction config_lines arbitrary: h st)
  case Nil
  then show ?case by simp
next
  case (Cons line config_lines)
  from build_line_sentinel [OF Cons.prems, of line h] obtain h' st'
    where "build_line line (h, st) = Some (h', st')" "st' \<noteq> []" "last st' = (- 1, 0)" by blast
  with Cons.IH [of st' h'] show ?case by simp
qed

lemma build_tree_scenario_old:
  "build_tree [u ''interface eth0'', u ''  ip address 1.2.3.4'', u ''!''] =
     Some (Tree [(u ''interface eth0'', Tree [(u ''ip address 1.2.3.4'', Tree [])])])"
  by (simp add: build_tree_def build_line_def tree_at.simps skipped_def indent_of_def
      command_def rstrip_def lstrip_def strip_def u_def isspace_def)

lemma build_tree_scenario_new:
  "build_tree [u ''interface eth0'', u ''  ip address 5.6.7.8''] =
     Some (Tree [(u ''interface eth0'', Tree [(u ''ip address 5.6.7.8'', Tree [])])])"
  by (simp add: build_tree_def build_line_def tree_at.simps skipped_def indent_of_def
      command_def rstrip_def lstrip_def strip_def u_def isspace_def)

lemma diff_scenario:
  "diff_trees slot (Tree [(u ''interface eth0'', Tree [(u ''ip address 1.2.3.4'', Tree [])])])
     (Tree [(u ''interface eth0'', Tree [(u ''ip address 5.6.7.8'', Tree [])])]) 0 =
   Some (if slot [u ''ip address 1.2.3.4''] [u ''ip address 5.6.7.8''] (u ''ip address 1.2.3.4'')
            \<le> slot [u ''ip address 1.2.3.4''] [u ''ip address 5.6.7.8''] (u ''ip address 5.6.7.8'')
         then [u ''interface eth0'', u ''  - ip address 1.2.3.4'', u ''  + ip address 5.6.7.8'']
         else [u ''interface eth0'', u ''  + ip address 5.6.7.8'', u ''  - ip address 1.2.3.4''])"
  by (simp add: diff_trees_entries diff_entries_unfold key_entries_def union_keys_def keys_def
      getitem_def spaces_def u_def)

lemma getitem_setitem: "getitem (Tree (setitem d k v)) k' = (if k' = k then Some v else getitem (Tree d) k')"
  by (simp add: getitem_def map_of_setitem)

lemma setitem_setitem: "setitem (setitem d k v) k v' = setitem d k v'"
  by (induction d k v rule: setitem.induct) auto

lemma tree_collapse: "Tree (entries t) = t"
  by simp

lemma subtree_append:
  "subtree t (p @ q) = (case subtree t p of None \<Rightarrow> None | Some s \<Rightarrow> subtree s q)"
  by (induction p arbitrary: t) (auto split: option.splits)

lemma subtree_graft:
  "subtree t p = Some s \<Longrightarrow> subtree (graft t p s') (p @ q) = subtree s' q"
  by (induction p arbitrary: t) (auto simp: getitem_setitem split: option.splits)

lemma subtree_graft_prefix:
  "subtree t (p @ q) = Some s \<Longrightarrow> \<exists>r. subtree (graft t (p @ q) s') p = Some r"
  by (induction p arbitrary: t) (auto simp: getitem_setitem split: option.splits)

lemma graft_same: "subtree t p = Some s \<Longrightarrow> graft t p s = t"
proof (induction p arbitrary: t)
  case Nil
  then show ?case by simp
next
  case (Cons k p)
  then obtain c where c: "getitem t k = Some c" "subtree c p = Some s"
    by (auto split: option.splits)
  with Cons.IH [OF c(2)] show ?case
    by (simp add: setitem_same [OF c(1) [unfolded getitem_def]])
qed

lemma graft_graft:
  "subtree t p = Some s \<Longrightarrow> graft (graft t p s') (p @ q) x = graft t p (graft s' q x)"
  by (induction p arbitrary: t s) (auto simp: getitem_setitem setitem_setitem split: option.splits)

lemma put_node_graft:
  assumes "subtree t p = Some s"
  shows "put_node (graft t p s') (p @ q) cmd = graft t p (put_node s' q cmd)"
proof (cases "subtree s' q")
  case None
  with assms show ?thesis by (simp add: put_node_def subtree_graft)
next
  case (Some r)
  with assms show ?thesis by (simp add: put_node_def subtree_graft graft_graft)
qed

lemma subtree_put_node:
  "subtree t p = Some s \<Longrightarrow> subtree (put_node t p cmd) (p @ [cmd]) = Some (Tree [])"
  by (simp add: put_node_def subtree_graft getitem_setitem)

lemma subtree_put_node_prefix:
  "subtree t (p @ q) = Some s \<Longrightarrow> \<exists>r. subtree (put_node t (p @ q) cmd) p = Some r"
  by (simp add: put_node_def subtree_graft_prefix)

lemma nesting_path_prefix:
  "d \<le> i \<Longrightarrow> \<exists>z. nesting_path i before = nesting_path d before @ z"
proof (induction before arbitrary: d i)
  case Nil
  show ?case by simp
next
  case (Cons e before)
  obtain j c where e: "e = (j, c)" by (cases e)
  show ?case
  proof (cases "j < d")
    case True
    with Cons.prems e show ?thesis by simp
  next
    case False
    show ?thesis
    proof (cases "j < i")
      case True
      from False have "d \<le> j" by simp
      from Cons.IH [OF this] True False e show ?thesis by auto
    next
      case False
      with Cons.IH [OF Cons.prems] \<open>\<not> j < d\<close> e show ?thesis by simp
    qed
  qed
qed

lemma nesting_path_exists: "\<exists>s. subtree (nesting_tree before) (nesting_path d before) = Some s"
proof (induction before arbitrary: d)
  case Nil
  show ?case by simp
next
  case (Cons e before)
  obtain i c where e: "e = (i, c)" by (cases e)
  from Cons [of i] obtain s where s: "subtree (nesting_tree before) (nesting_path i before) = Some s"
    by blast
  show ?case
  proof (cases "i < d")
    case True
    with subtree_put_node [OF s, of c] e show ?thesis by simp
  next
    case False
    then have "d \<le> i" by simp
    from nesting_path_prefix [OF this, of before] obtain z
      where z: "nesting_path i before = nesting_path d before @ z" by blast
    from subtree_put_node_prefix [of "nesting_tree before" "nesting_path d before" z s c] s z False e
    show ?thesis by simp
  qed
qed

lemma nesting_path_skip:
  "\<forall>e\<in>set xs. d \<le> fst e \<Longrightarrow> nesting_path d (xs @ before) = nesting_path d before"
  by (induction xs) auto

lemma nesting_path_below:
  "\<forall>e\<in>set xs. i < fst e \<Longrightarrow> i < d \<Longrightarrow>
     nesting_path d (xs @ (i, c) # before) = (nesting_path i before @ [c]) @ nesting_path d xs"
  by (induction xs arbitrary: d) auto

lemma nesting_tree_below:
  assumes "\<forall>e\<in>set xs. i < fst e"
  shows "nesting_tree (xs @ (i, c) # before) =
     graft (nesting_tree ((i, c) # before)) (nesting_path i before @ [c]) (nesting_tree xs)"
  using assms
proof (induction xs)
  case Nil
  from nesting_path_exists [of before i] obtain s
    where "subtree (nesting_tree before) (nesting_path i before) = Some s" by blast
  from subtree_put_node [OF this, of c] show ?case
    by (simp add: graft_same)
next
  case (Cons e xs)
  obtain j c' where e: "e = (j, c')" by (cases e)
  from Cons.prems e have j: "i < j" and xs: "\<forall>e\<in>set xs. i < fst e" by auto
  from nesting_path_exists [of before i] obtain s
    where "subtree (nesting_tree before) (nesting_path i before) = Some s" by blast
  from subtree_put_node [OF this, of c]
  have ex: "subtree (nesting_tree ((i, c) # before)) (nesting_path i before @ [c]) = Some (Tree [])"
    by simp
  have "nesting_tree (e # xs @ (i, c) # before) =
      put_node (nesting_tree (xs @ (i, c) # before)) (nesting_path j (xs @ (i, c) # before)) c'"
    by (simp add: e)
  also have "\<dots> = put_node
      (graft (nesting_tree ((i, c) # before)) (nesting_path i before @ [c]) (nesting_tree xs))
      ((nesting_path i before @ [c]) @ nesting_path j xs) c'"
    by (simp only: Cons.IH [OF xs] nesting_path_below [OF xs j, of c before])
  also have "\<dots> = graft (nesting_tree ((i, c) # before)) (nesting_path i before @ [c])
      (put_node (nesting_tree xs) (nesting_path j xs) c')"
    by (rule put_node_graft [OF ex])
  also have "put_node (nesting_tree xs) (nesting_path j xs) c' = nesting_tree (e # xs)"
    by (simp add: e)
  finally show ?case by simp
qed


lemma wf_tree_setitem: "wf_tree (Tree d) \<Longrightarrow> wf_tree v \<Longrightarrow> wf_tree (Tree (setitem d k v))"
  using set_setitem [of d k v] by (auto simp: distinct_setitem list_all_iff)

lemma wf_tree_graft: "wf_tree t \<Longrightarrow> wf_tree s \<Longrightarrow> wf_tree (graft t p s)"
proof (induction p arbitrary: t)
  case Nil
  then show ?case by simp
next
  case (Cons k p)
  show ?case
  proof (cases "getitem t k")
    case None
    with Cons.prems show ?thesis by simp
  next
    case (Some c)
    from wf_tree_sub [OF Cons.prems(1) Some] have "wf_tree c" .
    from Cons.IH [OF this Cons.prems(2)] Cons.prems(1) Some show ?thesis
      using wf_tree_setitem [of "entries t" "graft c p s" k] by simp
  qed
qed

lemma wf_tree_subtree: "wf_tree t \<Longrightarrow> subtree t p = Some s \<Longrightarrow> wf_tree s"
  by (induction p arbitrary: t) (auto split: option.splits dest: wf_tree_sub)

lemma wf_tree_put_node: "wf_tree t \<Longrightarrow> wf_tree (put_node t p cmd)"
proof (cases "subtree t p")
  case None
  assume "wf_tree t"
  with None show ?thesis by (simp add: put_node_def)
next
  case (Some s)
  assume t: "wf_tree t"
  from wf_tree_subtree [OF t Some] have "wf_tree (Tree (entries s))" by simp
  then have "wf_tree (Tree (setitem (entries s) cmd (Tree [])))"
    by (rule wf_tree_setitem) simp
  with t Some show ?thesis by (simp add: put_node_def wf_tree_graft)
qed

lemma wf_tree_nesting_tree: "wf_tree (nesting_tree before)"
  by (induction before) (auto simp: wf_tree_put_node)

lemma count_list_distinct: "distinct xs \<Longrightarrow> x \<in> set xs \<Longrightarrow> count_list xs x = 1"
  by (induction xs) auto

lemma wf_tree_key_once:
  assumes "wf_tree t" and "getitem t k = Some s"
  shows "count_list (keys t) k = 1"
proof (rule count_list_distinct)
  from assms(1) show "distinct (keys t)" by (cases t) (simp add: keys_def)
  from assms(2) show "k \<in> set (keys t)"
    by (simp add: contains_getitem [unfolded contains_def])
qed

lemma config_items_append: "config_items (xs @ ys) = config_items xs @ config_items ys"
  by (simp add: config_items_def)

lemma config_items_Cons:
  "\<not> skipped line \<Longrightarrow> config_items (line # xs) = (indent_of line, command line) # config_items xs"
  by (simp add: config_items_def)

lemma put_node_Cons_eq:
  "getitem t b = Some c \<Longrightarrow>
   put_node t (b # q) e = Tree (setitem (entries t) b (put_node c q e))"
proof (cases "subtree c q")
  case None
  assume g: "getitem t b = Some c"
  then have "setitem (entries t) b c = entries t"
    by (simp add: getitem_def setitem_same)
  with g None show ?thesis by (simp add: put_node_def tree_collapse)
next
  case (Some p)
  assume "getitem t b = Some c"
  with Some show ?thesis by (simp add: put_node_def)
qed

lemma put_node_other:
  "\<not> prefix (q @ [e]) R \<Longrightarrow> \<not> prefix R q \<Longrightarrow> subtree (put_node t q e) R = subtree t R"
proof (induction q arbitrary: t R)
  case Nil
  then obtain a R' where R: "R = a # R'" and a: "a \<noteq> e" by (cases R) auto
  then show ?case by (simp add: put_node_def getitem_setitem tree_collapse)
next
  case (Cons b q)
  from Cons.prems(2) obtain a R' where R: "R = a # R'" by (cases R) auto
  show ?case
  proof (cases "getitem t b")
    case None
    then show ?thesis by (simp add: put_node_def)
  next
    case (Some c)
    show ?thesis
    proof (cases "a = b")
      case True
      with Cons.prems R have "\<not> prefix (q @ [e]) R'" "\<not> prefix R' q" by simp_all
      from Cons.IH [OF this, of c] Some True R show ?thesis
        by (simp add: put_node_Cons_eq getitem_setitem)
    next
      case False
      with Some R show ?thesis
        by (simp add: put_node_Cons_eq getitem_setitem tree_collapse)
    qed
  qed
qed

lemma put_step:
  assumes "subtree (nesting_tree B) R = Some S"
    and "\<not> prefix (nesting_path d B @ [e]) R"
    and "\<forall>d'\<le>d. \<not> prefix R (nesting_path d' B)"
  shows "subtree (nesting_tree ((d, e) # B)) R = Some S \<and>
     (\<forall>d'. \<not> prefix R (nesting_path d' ((d, e) # B)))"
proof
  from assms(3) have "\<not> prefix R (nesting_path d B)" by simp
  from put_node_other [OF assms(2) this] assms(1)
  show "subtree (nesting_tree ((d, e) # B)) R = Some S" by simp
  show "\<forall>d'. \<not> prefix R (nesting_path d' ((d, e) # B))"
  proof
    fix d'
    show "\<not> prefix R (nesting_path d' ((d, e) # B))"
    proof (cases "d < d'")
      case True
      have "\<not> prefix R (nesting_path d B @ [e])"
      proof
        assume "prefix R (nesting_path d B @ [e])"
        then have "R = nesting_path d B @ [e] \<or> prefix R (nesting_path d B)"
          by (simp add: prefix_snoc)
        with assms(2,3) show False by auto
      qed
      with True show ?thesis by simp
    next
      case False
      with assms(3) show ?thesis by simp
    qed
  qed
qed

lemma not_overwritten_tail:
  assumes "subtree (nesting_tree (rev (config_items before))) R = Some S"
    and "\<forall>d. \<not> prefix R (nesting_path d (rev (config_items before)))"
    and "\<not> overwritten before rest R"
  shows "subtree (nesting_tree (rev (config_items (before @ rest)))) R = Some S"
  using assms
proof (induction rest arbitrary: before)
  case Nil
  then show ?case by simp
next
  case (Cons line rest)
  have both: "subtree (nesting_tree (rev (config_items (before @ [line])))) R = Some S \<and>
      (\<forall>d. \<not> prefix R (nesting_path d (rev (config_items (before @ [line])))))"
  proof (cases "skipped line")
    case True
    with Cons.prems(1,2) show ?thesis by (simp add: config_items_snoc)
  next
    case False
    with Cons.prems(3) have "\<not> prefix (node_path before line) R" by simp
    then have "\<not> prefix (nesting_path (indent_of line) (rev (config_items before)) @ [command line]) R"
      by (simp add: node_path_def)
    from put_step [OF Cons.prems(1) this] Cons.prems(2) False show ?thesis
      by (simp add: config_items_snoc)
  qed
  from Cons.prems(3) have "\<not> overwritten (before @ [line]) rest R" by simp
  from Cons.IH [OF conjunct1 [OF both] conjunct2 [OF both] this] show ?case by simp
qed

lemma nesting_path_above:
  assumes "\<forall>e\<in>set xs. i < fst e" and "\<forall>e\<in>set mid. i \<le> fst e" and "d \<le> i"
  shows "\<not> prefix (nesting_path i A @ [c])
     (nesting_path d (xs @ (i, c) # mid @ (i, c) # A))"
proof -
  from assms(1,3) have "\<forall>e\<in>set xs. d \<le> fst e" by auto
  from nesting_path_skip [OF this]
  have "nesting_path d (xs @ (i, c) # mid @ (i, c) # A) = nesting_path d ((i, c) # mid @ (i, c) # A)" .
  also from assms(3) have "\<dots> = nesting_path d (mid @ (i, c) # A)" by simp
  also from assms(2,3) have "\<forall>e\<in>set mid. d \<le> fst e" by auto
  from nesting_path_skip [OF this]
  have "nesting_path d (mid @ (i, c) # A) = nesting_path d ((i, c) # A)" .
  also from assms(3) have "\<dots> = nesting_path d A" by simp
  finally have eq: "nesting_path d (xs @ (i, c) # mid @ (i, c) # A) = nesting_path d A" .
  from nesting_path_prefix [OF assms(3), of A] obtain z
    where "nesting_path i A = nesting_path d A @ z" by blast
  then have "length (nesting_path d A) < length (nesting_path i A @ [c])" by simp
  then have "\<not> prefix (nesting_path i A @ [c]) (nesting_path d A)"
    by (auto dest: prefix_length_le)
  with eq show ?thesis by simp
qed

lemma block_split:
  "\<exists>nested rest. lines = nested @ rest \<and>
     (\<forall>line\<in>set nested. \<not> skipped line \<longrightarrow> i < indent_of line) \<and>
     (rest = [] \<or> \<not> skipped (hd rest) \<and> indent_of (hd rest) \<le> i)"
proof (intro exI conjI)
  let ?inside = "\<lambda>line. skipped line \<or> i < indent_of line"
  show "lines = takeWhile ?inside lines @ dropWhile ?inside lines" by simp
  show "\<forall>line\<in>set (takeWhile ?inside lines). \<not> skipped line \<longrightarrow> i < indent_of line"
    by (auto dest: set_takeWhileD)
  show "dropWhile ?inside lines = [] \<or>
      \<not> skipped (hd (dropWhile ?inside lines)) \<and> indent_of (hd (dropWhile ?inside lines)) \<le> i"
  proof (cases "dropWhile ?inside lines = []")
    case True
    then show ?thesis by simp
  next
    case False
    from hd_dropWhile [OF this] show ?thesis by (simp add: not_less)
  qed
qed

lemmas eval_lines = config_items_def skipped_def indent_of_def command_def rstrip_def lstrip_def
  strip_def u_def isspace_def

lemmas eval_path = node_path_def eval_lines

lemma height_deep_tree [simp]: "height (deep_tree n) = n"
  by (induction n) simp_all

lemma wf_deep_tree [simp]: "wf_tree (deep_tree n)"
  by (induction n) simp_all

lemma deep_line:
  "\<not> skipped (replicate i 32 @ u ''x'') \<and> indent_of (replicate i 32 @ u ''x'') = int i \<and>
   command (replicate i 32 @ u ''x'') = u ''x''"
proof -
  have s: "isspace 32" and x: "\<not> isspace 120" by (simp_all add: isspace_def)
  have t: "takeWhile isspace (replicate i 32 @ u ''x'') = replicate i 32"
    using s x by (induction i) (simp_all add: u_def)
  have d: "dropWhile isspace (replicate i 32 @ u ''x'') = u ''x''"
    using s x by (induction i) (simp_all add: u_def)
  have "strip (replicate i 32 @ u ''x'') = u ''x''"
    using x by (simp add: strip_def lstrip_def d) (simp add: rstrip_def u_def)
  with t show ?thesis
    by (simp add: skipped_iff command_strip indent_of_leading) (simp add: u_def)
qed

lemma config_items_deep_lines:
  "config_items (deep_lines n) = map (\<lambda>i. (int i, u ''x'')) [0..<n]"
  by (induction n) (simp_all add: deep_lines_def config_items_def deep_line)

lemma nesting_path_deep:
  "nesting_path (int n) (rev (map (\<lambda>i. (int i, u ''x'')) [0..<n])) = replicate n (u ''x'')"
  by (induction n) (simp_all add: replicate_append_same)

lemma subtree_deep_tree: "subtree (deep_tree n) (replicate n (u ''x'')) = Some (Tree [])"
  by (induction n) (simp_all add: getitem_def)

lemma graft_deep_tree:
  "graft (deep_tree n) (replicate n (u ''x'')) (deep_tree m) = deep_tree (n + m)"
  by (induction n) (simp_all add: getitem_def)

lemma nesting_tree_deep:
  "nesting_tree (rev (map (\<lambda>i. (int i, u ''x'')) [0..<n])) = deep_tree n"
proof (induction n)
  case 0
  show ?case by simp
next
  case (Suc n)
  from graft_deep_tree [of n 1] show ?case
    by (simp add: Suc nesting_path_deep put_node_def subtree_deep_tree)
qed

lemma build_tree_deep_lines: "build_tree (deep_lines n) = Some (deep_tree n)"
  by (simp add: build_tree_nesting config_items_deep_lines nesting_tree_deep)

section \<open>The claims about the tree differ\<close>

text \<open>
  C1, full-subtree propagation. Let \<open>k\<close> be a key of \<open>old_tree\<close> that \<open>new_tree\<close>
  does not have, and \<open>sub\<close> the subtree \<open>old_tree[k]\<close>. The report is made of the lines
  of the keys visited before \<open>k\<close>, then the line \<open>- k\<close> at the current depth, then
  the report \<open>sub_diff\<close> of \<open>sub\<close> against the empty tree one level deeper, then the
  lines of the keys visited after \<open>k\<close>. \<open>sub_diff\<close> has one line for every node of
  \<open>sub\<close>, as many as \<open>sub\<close> has nodes, and each is the removed entry of a descendant
  at the descendant's depth.
\<close>

theorem removed_subtree_listed:
  assumes "wf_tree old_tree" and "getitem old_tree k = Some sub" and "\<not> contains new_tree k"
  shows "\<exists>ks1 ks2 before after sub_diff.
     union_keys slot old_tree new_tree = ks1 @ k # ks2 \<and> k \<notin> set ks1 \<and> k \<notin> set ks2 \<and>
     diff_keys slot old_tree new_tree d ks1 = Some before \<and>
     diff_keys slot old_tree new_tree d ks2 = Some after \<and>
     diff_trees slot sub (Tree []) (d + 1) = Some sub_diff \<and>
     diff_trees slot old_tree new_tree d =
       Some (before @ (spaces d @ u ''- '' @ k) # sub_diff @ after) \<and>
     sub_diff = map render (diff_entries slot sub (Tree []) (d + 1)) \<and>
     mset (diff_entries slot sub (Tree []) (d + 1)) =
       mset (map (\<lambda>(depth, key). (depth, Removed, key)) (descendants (d + 1) sub)) \<and>
     length sub_diff = nodes sub"
proof -
  have k: "k \<in> set (union_keys slot old_tree new_tree)"
    using assms(2) by (simp add: union_keys_mem)
  have n: "getitem new_tree k = None"
    using assms(3) by (simp add: contains_getitem)
  have e: "map render (key_entries slot old_tree new_tree d k) =
      (spaces d @ u ''- '' @ k) # map render (diff_entries slot sub (Tree []) (d + 1))"
    using assms(2) n by (simp add: key_entries_def)
  have m: "mset (diff_entries slot sub (Tree []) (d + 1)) =
       mset (map (\<lambda>(depth, key). (depth, Removed, key)) (descendants (d + 1) sub))"
    by (rule removed_entries [OF wf_tree_sub [OF assms(1,2)]])
  have "length (diff_entries slot sub (Tree []) (d + 1)) = nodes sub"
    using arg_cong [OF m, of size] by (simp add: length_descendants)
  then have l: "length (map render (diff_entries slot sub (Tree []) (d + 1))) = nodes sub"
    by simp
  from diff_trees_split [OF k, of d] e m l diff_trees_entries [of slot sub "Tree []" "d + 1"]
  show ?thesis by (metis append_Cons)
qed

theorem removed_subtree_listed_witness:
  "wf_tree (Tree [(u ''a'', Tree [(u ''b'', Tree [(u ''c'', Tree [])])]), (u ''x'', Tree [])]) \<and>
   getitem (Tree [(u ''a'', Tree [(u ''b'', Tree [(u ''c'', Tree [])])]), (u ''x'', Tree [])]) (u ''a'') =
     Some (Tree [(u ''b'', Tree [(u ''c'', Tree [])])]) \<and>
   \<not> contains (Tree [(u ''x'', Tree [])]) (u ''a'') \<and>
   (\<exists>before after sub_diff.
      diff_trees first_seen
        (Tree [(u ''a'', Tree [(u ''b'', Tree [(u ''c'', Tree [])])]), (u ''x'', Tree [])])
        (Tree [(u ''x'', Tree [])]) 0 =
        Some (before @ (spaces 0 @ u ''- '' @ u ''a'') # sub_diff @ after) \<and>
      length sub_diff = nodes (Tree [(u ''b'', Tree [(u ''c'', Tree [])])]))"
proof -
  let ?old = "Tree [(u ''a'', Tree [(u ''b'', Tree [(u ''c'', Tree [])])]), (u ''x'', Tree [])]"
  have h1: "wf_tree ?old" by code_simp
  have h2: "getitem ?old (u ''a'') = Some (Tree [(u ''b'', Tree [(u ''c'', Tree [])])])"
    by code_simp
  have h3: "\<not> contains (Tree [(u ''x'', Tree [])]) (u ''a'')" by code_simp
  from removed_subtree_listed [OF h1 h2 h3, of first_seen 0] h1 h2 h3
  show ?thesis by blast
qed

text \<open>
  C2, elision of unchanged subtrees. Let \<open>k\<close> be a key of both trees, with the
  subtrees \<open>a\<close> and \<open>b\<close>, and \<open>child_diff\<close> the report of \<open>a\<close> against \<open>b\<close> one
  level deeper. \<open>child_diff\<close> is empty exactly when \<open>a\<close> and \<open>b\<close> are equal. The
  report is made of the lines of the keys visited before \<open>k\<close>, then nothing when
  \<open>child_diff\<close> is empty and otherwise the header line of \<open>k\<close> followed at once by
  \<open>child_diff\<close>, then the lines of the keys visited after \<open>k\<close>. So equal subtrees
  leave no line for \<open>k\<close> or below it.
\<close>

theorem unchanged_subtree_elided:
  assumes "getitem old_tree k = Some a" and "getitem new_tree k = Some b"
  shows "\<exists>ks1 ks2 before after child_diff.
     union_keys slot old_tree new_tree = ks1 @ k # ks2 \<and> k \<notin> set ks1 \<and> k \<notin> set ks2 \<and>
     diff_keys slot old_tree new_tree d ks1 = Some before \<and>
     diff_keys slot old_tree new_tree d ks2 = Some after \<and>
     diff_trees slot a b (d + 1) = Some child_diff \<and>
     (child_diff = [] \<longleftrightarrow> tree_eq a b) \<and>
     diff_trees slot old_tree new_tree d =
       Some (before @ (if child_diff \<noteq> [] then (spaces d @ k) # child_diff else []) @ after) \<and>
     (tree_eq a b \<longrightarrow> diff_trees slot old_tree new_tree d = Some (before @ after))"
proof -
  have k: "k \<in> set (union_keys slot old_tree new_tree)"
    using assms(1) by (simp add: union_keys_mem)
  let ?child = "map render (diff_entries slot a b (d + 1))"
  have e: "map render (key_entries slot old_tree new_tree d k) =
      (if ?child \<noteq> [] then (spaces d @ k) # ?child else [])"
    using assms by (simp add: key_entries_def Let_def)
  have c: "?child = [] \<longleftrightarrow> tree_eq a b"
    by (simp add: diff_entries_empty_iff)
  from diff_trees_split [OF k, of d] obtain ks1 ks2 before after where
    s: "union_keys slot old_tree new_tree = ks1 @ k # ks2" "k \<notin> set ks1" "k \<notin> set ks2"
      "diff_keys slot old_tree new_tree d ks1 = Some before"
      "diff_keys slot old_tree new_tree d ks2 = Some after"
      "diff_trees slot old_tree new_tree d =
         Some (before @ map render (key_entries slot old_tree new_tree d k) @ after)"
    by blast
  have "tree_eq a b \<longrightarrow> diff_trees slot old_tree new_tree d = Some (before @ after)"
    using s(6) c e by simp
  with s e c diff_trees_entries [of slot a b "d + 1"] show ?thesis
    by (intro exI [of _ ks1] exI [of _ ks2] exI [of _ before] exI [of _ after] exI [of _ ?child])
      simp
qed

theorem unchanged_subtree_elided_witness:
  "getitem (Tree [(u ''a'', Tree [(u ''b'', Tree [])]), (u ''x'', Tree [])]) (u ''a'') =
     Some (Tree [(u ''b'', Tree [])]) \<and>
   getitem (Tree [(u ''y'', Tree []), (u ''a'', Tree [(u ''b'', Tree [])])]) (u ''a'') =
     Some (Tree [(u ''b'', Tree [])]) \<and>
   (\<exists>before after.
      diff_trees first_seen
        (Tree [(u ''a'', Tree [(u ''b'', Tree [])]), (u ''x'', Tree [])])
        (Tree [(u ''y'', Tree []), (u ''a'', Tree [(u ''b'', Tree [])])]) 0 =
        Some (before @ after))"
proof -
  let ?old = "Tree [(u ''a'', Tree [(u ''b'', Tree [])]), (u ''x'', Tree [])]"
  let ?new = "Tree [(u ''y'', Tree []), (u ''a'', Tree [(u ''b'', Tree [])])]"
  have h1: "getitem ?old (u ''a'') = Some (Tree [(u ''b'', Tree [])])" by code_simp
  have h2: "getitem ?new (u ''a'') = Some (Tree [(u ''b'', Tree [])])" by code_simp
  from unchanged_subtree_elided [OF h1 h2, of first_seen 0] tree_eq_refl h1 h2
  show ?thesis by blast
qed

text \<open>
  C5, idempotence of the no-op diff: the report of a tree against itself is empty, at
  every depth and for every order of the keys.
\<close>

theorem diff_trees_same: "diff_trees slot T T d = Some []"
  by (simp add: diff_trees_entries diff_entries_empty_iff tree_eq_refl)

theorem diff_trees_same_witness:
  "diff_trees first_seen (Tree [(u ''a'', Tree [(u ''b'', Tree [])]), (u ''x'', Tree [])])
     (Tree [(u ''a'', Tree [(u ''b'', Tree [])]), (u ''x'', Tree [])]) 3 = Some []"
  by (rule diff_trees_same)

text \<open>
  C6, symmetry of the classification. The report of \<open>B\<close> against \<open>A\<close> has the entries
  of the report of \<open>A\<close> against \<open>B\<close> with the markers of removal and addition
  exchanged: every entry has the same key, the same depth and the same chain of parent
  keys in both, as often in the one as in the other. The place of an entry in the
  sequence is the same in both reports when the two calls visit the keys in the same
  order at every pair of dictionaries that they compare (\<open>same_order\<close>, a condition
  on these two trees only), and then the one report is the other, line by line, with
  the markers exchanged.
\<close>

theorem diff_trees_symmetry:
  "diff_trees slot A B d = Some (map (render \<circ> at_depth d) (diff_located slot A B [])) \<and>
   diff_trees slot' B A d = Some (map (render \<circ> at_depth d) (diff_located slot' B A [])) \<and>
   mset (diff_located slot' B A []) = image_mset flip_located (mset (diff_located slot A B [])) \<and>
   (same_order slot slot' A B \<longrightarrow>
      diff_trees slot' B A d = Some (map (render \<circ> flip \<circ> at_depth d) (diff_located slot A B [])))"
proof (intro conjI impI)
  show "diff_trees slot A B d = Some (map (render \<circ> at_depth d) (diff_located slot A B []))"
    using entries_located [of slot A B d "[]"] by (simp add: diff_trees_entries)
  show "diff_trees slot' B A d = Some (map (render \<circ> at_depth d) (diff_located slot' B A []))"
    using entries_located [of slot' B A d "[]"] by (simp add: diff_trees_entries)
  show "mset (diff_located slot' B A []) = image_mset flip_located (mset (diff_located slot A B []))"
    by (rule flipped_located)
  assume "same_order slot slot' A B"
  from flipped_entries_same_order [OF this, of d] entries_located [of slot A B d "[]"]
  show "diff_trees slot' B A d = Some (map (render \<circ> flip \<circ> at_depth d) (diff_located slot A B []))"
    by (simp add: diff_trees_entries)
qed

theorem diff_trees_symmetry_witness:
  "same_order first_seen first_seen
     (Tree [(u ''a'', Tree []), (u ''c'', Tree [(u ''x'', Tree [])])])
     (Tree [(u ''a'', Tree [(u ''y'', Tree [])])]) \<and>
   diff_trees first_seen (Tree [(u ''a'', Tree []), (u ''c'', Tree [(u ''x'', Tree [])])])
     (Tree [(u ''a'', Tree [(u ''y'', Tree [])])]) 0 =
     Some [u ''a'', u ''  + y'', u ''- c'', u ''  - x''] \<and>
   diff_trees first_seen (Tree [(u ''a'', Tree [(u ''y'', Tree [])])])
     (Tree [(u ''a'', Tree []), (u ''c'', Tree [(u ''x'', Tree [])])]) 0 =
     Some [u ''a'', u ''  - y'', u ''+ c'', u ''  + x'']"
proof -
  let ?A = "Tree [(u ''a'', Tree []), (u ''c'', Tree [(u ''x'', Tree [])])]"
  let ?B = "Tree [(u ''a'', Tree [(u ''y'', Tree [])])]"
  have h: "same_order first_seen first_seen ?A ?B"
    by (simp add: eval_order)
  have l: "diff_located first_seen ?A ?B [] =
      [([], Header, u ''a''), ([u ''a''], Added, u ''y''), ([], Removed, u ''c''),
       ([u ''c''], Removed, u ''x'')]"
    by (simp add: eval_order)
  from diff_trees_symmetry [of first_seen ?A ?B 0 first_seen] h
  have "diff_trees first_seen ?A ?B 0 =
      Some (map (render \<circ> at_depth 0) (diff_located first_seen ?A ?B []))"
    and "diff_trees first_seen ?B ?A 0 =
      Some (map (render \<circ> flip \<circ> at_depth 0) (diff_located first_seen ?A ?B []))"
    by blast+
  then have "diff_trees first_seen ?A ?B 0 = Some [u ''a'', u ''  + y'', u ''- c'', u ''  - x'']"
    and "diff_trees first_seen ?B ?A 0 = Some [u ''a'', u ''  - y'', u ''+ c'', u ''  + x'']"
    by (simp_all add: l) (simp_all add: spaces_def u_def)
  with h show ?thesis by blast
qed

text \<open>
  Without that, the place in the sequence is not the same. The two keys \<open>a\<close> and \<open>b\<close>
  of \<open>set(A) | set(B)\<close> and of \<open>set(B) | set(A)\<close> are visited in the order in
  which they went into the set when they collide in the hash table (as \<open>{0, 8}\<close> and
  \<open>{8, 0}\<close> show for integers): \<open>a\<close> is removed at the first place of the one
  report and added at the second place of the other.
\<close>

theorem diff_trees_positions_differ:
  "diff_trees first_seen (Tree [(u ''a'', Tree [])]) (Tree [(u ''b'', Tree [])]) 0 =
     Some [u ''- a'', u ''+ b''] \<and>
   diff_trees first_seen (Tree [(u ''b'', Tree [])]) (Tree [(u ''a'', Tree [])]) 0 =
     Some [u ''- b'', u ''+ a'']"
  by (simp add: diff_trees_entries diff_entries_unfold key_entries_def union_keys_def keys_def
      getitem_def spaces_def u_def first_seen_def position_def)

text \<open>
  C10, an empty report implies equal trees: when the report of \<open>A\<close> against \<open>B\<close> is
  empty, the two trees are equal as nested dictionaries.
\<close>

theorem diff_trees_empty_equal: "diff_trees slot A B d = Some [] \<Longrightarrow> tree_eq A B"
  by (simp add: diff_trees_entries diff_entries_empty_iff)

theorem diff_trees_empty_equal_witness:
  "diff_trees first_seen (Tree [(u ''a'', Tree []), (u ''b'', Tree [])])
     (Tree [(u ''b'', Tree []), (u ''a'', Tree [])]) 0 = Some [] \<and>
   tree_eq (Tree [(u ''a'', Tree []), (u ''b'', Tree [])])
     (Tree [(u ''b'', Tree []), (u ''a'', Tree [])])"
proof -
  have h: "diff_trees first_seen (Tree [(u ''a'', Tree []), (u ''b'', Tree [])])
     (Tree [(u ''b'', Tree []), (u ''a'', Tree [])]) 0 = Some []"
    by code_simp
  from diff_trees_empty_equal [OF h] h show ?thesis by simp
qed

section \<open>The claims about the tree builder\<close>

text \<open>
  C3, the nesting guarantee of the parser. The indentation of a line is the number of
  its leading whitespace characters and its command is the trimmed line. The tree of
  a sequence of lines is the tree of the nesting that the specification describes:
  every line that is not passed over is put, in the order of the file, under the line
  found by the backward scan for the nearest line of strictly smaller indentation (the
  root when there is none). So when a line follows the lines \<open>config_lines\<close>, the
  path of its ancestors is a node of the tree of \<open>config_lines\<close>, the tree of
  \<open>config_lines @ [line]\<close> is that tree with a node for the line put under this
  path, at a depth that is the number of the ancestors, and the node has no children
  yet.
\<close>

theorem parser_nesting:
  "indent_of line = int (length (takeWhile isspace line)) \<and>
   command line = strip line \<and>
   build_tree config_lines = Some (nesting_tree (rev (config_items config_lines))) \<and>
   (\<not> skipped line \<longrightarrow>
      (let before = rev (config_items config_lines);
           path = nesting_path (indent_of line) before
       in (\<exists>parent. subtree (nesting_tree before) path = Some parent) \<and>
          build_tree (config_lines @ [line]) =
            Some (put_node (nesting_tree before) path (command line)) \<and>
          subtree (put_node (nesting_tree before) path (command line)) (path @ [command line]) =
            Some (Tree [])))"
proof (intro conjI impI)
  show "indent_of line = int (length (takeWhile isspace line))" by (rule indent_of_leading)
  show "command line = strip line" by (rule command_strip)
  show "build_tree config_lines = Some (nesting_tree (rev (config_items config_lines)))"
    by (rule build_tree_nesting)
  assume n: "\<not> skipped line"
  let ?before = "rev (config_items config_lines)"
  let ?path = "nesting_path (indent_of line) ?before"
  from nesting_path_exists [of ?before "indent_of line"] obtain parent
    where p: "subtree (nesting_tree ?before) ?path = Some parent" by blast
  have "build_tree (config_lines @ [line]) =
      Some (put_node (nesting_tree ?before) ?path (command line))"
    using n by (simp add: build_tree_nesting config_items_snoc)
  with p subtree_put_node [OF p, of "command line"]
  show "let before = rev (config_items config_lines);
           path = nesting_path (indent_of line) before
       in (\<exists>parent. subtree (nesting_tree before) path = Some parent) \<and>
          build_tree (config_lines @ [line]) =
            Some (put_node (nesting_tree before) path (command line)) \<and>
          subtree (put_node (nesting_tree before) path (command line)) (path @ [command line]) =
            Some (Tree [])"
    by (simp add: Let_def)
qed

theorem parser_nesting_witness:
  "\<not> skipped (u ''  e'') \<and>
   build_tree [u ''a'', u ''  b'', u ''    c'', u '' d''] =
     Some (Tree [(u ''a'', Tree [(u ''b'', Tree [(u ''c'', Tree [])]), (u ''d'', Tree [])])]) \<and>
   nesting_path (indent_of (u ''  e'')) (rev (config_items [u ''a'', u ''  b'', u ''    c'', u '' d''])) =
     [u ''a'', u ''d''] \<and>
   build_tree ([u ''a'', u ''  b'', u ''    c'', u '' d''] @ [u ''  e'']) =
     Some (Tree [(u ''a'', Tree [(u ''b'', Tree [(u ''c'', Tree [])]),
                                 (u ''d'', Tree [(u ''e'', Tree [])])])])"
proof -
  have n: "\<not> skipped (u ''  e'')" by (simp add: eval_lines)
  from parser_nesting [of "u ''  e''" "[u ''a'', u ''  b'', u ''    c'', u '' d'']"] n
  show ?thesis
    by (simp add: eval_lines Let_def put_node_def getitem_def)
qed

text \<open>
  C4, the collapse of duplicate siblings. Two lines \<open>first\<close> and \<open>second\<close> that are
  not passed over have the same indentation and the same command; the lines between
  them are indented at least as much (so both lines have the same parent), the lines
  \<open>nested\<close> after the second are indented more (they are the subtree of the second
  line), and the lines \<open>rest\<close>, any lines, follow: the first of them ends the
  subtree of the second line (every sequence of lines is such \<open>nested @ rest\<close>,
  \<open>block_split\<close>), and none of them is put at the node of the two lines or at a
  node above it. Then the parent found for the second line is the parent found
  for the first, in the tree of the whole input the parent holds the command as a key
  once, and the children of that node are the tree that \<open>build_tree\<close> makes of the
  lines \<open>nested\<close> alone: nothing is left of what the first line had below it.
\<close>

theorem duplicate_sibling_collapse:
  assumes "\<not> skipped first" and "\<not> skipped second"
    and "indent_of second = indent_of first" and "command second = command first"
    and "\<forall>line\<in>set middle. \<not> skipped line \<longrightarrow> indent_of first \<le> indent_of line"
    and "\<forall>line\<in>set nested. \<not> skipped line \<longrightarrow> indent_of first < indent_of line"
    and "rest = [] \<or> \<not> skipped (hd rest) \<and> indent_of (hd rest) \<le> indent_of first"
    and "\<not> overwritten (preceding @ first # middle @ second # nested) rest
          (node_path preceding first)"
  shows "\<exists>t parent children.
     build_tree (preceding @ first # middle @ second # nested @ rest) = Some t \<and>
     nesting_path (indent_of second) (rev (config_items (preceding @ first # middle))) =
       nesting_path (indent_of first) (rev (config_items preceding)) \<and>
     subtree t (nesting_path (indent_of first) (rev (config_items preceding))) = Some parent \<and>
     count_list (keys parent) (command first) = 1 \<and>
     getitem parent (command first) = Some children \<and>
     build_tree nested = Some children"
proof -
  let ?i = "indent_of first" and ?c = "command first"
  let ?xs = "rev (config_items nested)"
  let ?A = "rev (config_items preceding)"
  let ?mid = "rev (config_items middle)"
  let ?B = "?mid @ (?i, ?c) # ?A"
  let ?P = "nesting_path ?i ?A"
  let ?before = "preceding @ first # middle @ second # nested"
  have R: "node_path preceding first = ?P @ [?c]" by (simp add: node_path_def)
  have items: "rev (config_items ?before) = ?xs @ (?i, ?c) # ?B"
    using assms(1-4) by (simp add: config_items_append config_items_Cons)
  have itemsB: "rev (config_items (preceding @ first # middle)) = ?B"
    using assms(1) by (simp add: config_items_append config_items_Cons)
  have nested: "\<forall>e\<in>set ?xs. ?i < fst e"
    using assms(6) by (auto simp: config_items_def)
  have middle: "\<forall>e\<in>set ?mid. ?i \<le> fst e"
    using assms(5) by (auto simp: config_items_def)
  have "nesting_path ?i ?B = nesting_path ?i ((?i, ?c) # ?A)"
    by (rule nesting_path_skip [OF middle])
  then have same: "nesting_path ?i ?B = ?P" by simp
  let ?t0 = "nesting_tree (?xs @ (?i, ?c) # ?B)"
  have t0: "?t0 = graft (nesting_tree ((?i, ?c) # ?B)) (?P @ [?c]) (nesting_tree ?xs)"
    using nesting_tree_below [OF nested, of ?c ?B] by (simp only: same)
  from nesting_path_exists [of ?B ?i] obtain s where "subtree (nesting_tree ?B) ?P = Some s"
    unfolding same by blast
  from subtree_put_node [OF this, of ?c]
  have "subtree (nesting_tree ((?i, ?c) # ?B)) (?P @ [?c]) = Some (Tree [])"
    by (simp add: same)
  from subtree_graft [OF this, of "nesting_tree ?xs" "[]"]
  have "subtree ?t0 (?P @ [?c]) = Some (nesting_tree ?xs)"
    by (simp add: t0)
  then have node0: "subtree (nesting_tree (rev (config_items ?before))) (?P @ [?c]) =
      Some (nesting_tree ?xs)"
    by (simp only: items)
  have low: "\<not> prefix (?P @ [?c]) (nesting_path d (rev (config_items ?before)))" if "d \<le> ?i" for d
    unfolding items by (rule nesting_path_above [OF nested middle that])
  let ?t = "nesting_tree (rev (config_items (?before @ rest)))"
  have node: "subtree ?t (?P @ [?c]) = Some (nesting_tree ?xs)"
  proof (cases rest)
    case Nil
    with node0 show ?thesis by simp
  next
    case (Cons line rest')
    with assms(7) have line: "\<not> skipped line" "indent_of line \<le> ?i" by simp_all
    from assms(8) Cons R line(1)
    have put: "\<not> prefix (nesting_path (indent_of line) (rev (config_items ?before)) @ [command line])
        (?P @ [?c])"
      and later: "\<not> overwritten (?before @ [line]) rest' (?P @ [?c])"
      by (simp_all add: node_path_def)
    from low line(2) have "\<forall>d'\<le>indent_of line.
        \<not> prefix (?P @ [?c]) (nesting_path d' (rev (config_items ?before)))"
      by auto
    from put_step [OF node0 put this]
    have step: "subtree (nesting_tree ((indent_of line, command line) # rev (config_items ?before)))
          (?P @ [?c]) = Some (nesting_tree ?xs)"
        "\<forall>d. \<not> prefix (?P @ [?c])
          (nesting_path d ((indent_of line, command line) # rev (config_items ?before)))"
      by blast+
    have snoc: "(indent_of line, command line) # rev (config_items ?before) =
        rev (config_items (?before @ [line]))"
      using config_items_snoc [of ?before line] line(1) by (simp only: if_False rev_append rev.simps append_Nil append_Cons)
    from not_overwritten_tail [OF step [unfolded snoc] later] Cons show ?thesis by simp
  qed
  then obtain parent where parent: "subtree ?t ?P = Some parent"
    and child: "getitem parent ?c = Some (nesting_tree ?xs)"
    by (auto simp: subtree_append split: option.splits)
  from wf_tree_subtree [OF wf_tree_nesting_tree parent] have "wf_tree parent" .
  from wf_tree_key_once [OF this child] have once: "count_list (keys parent) ?c = 1" .
  have "build_tree (preceding @ first # middle @ second # nested @ rest) = Some ?t"
    by (simp add: build_tree_nesting)
  moreover have "nesting_path (indent_of second) (rev (config_items (preceding @ first # middle))) = ?P"
    by (simp only: itemsB assms(3) same)
  moreover have "build_tree nested = Some (nesting_tree ?xs)"
    by (rule build_tree_nesting)
  ultimately show ?thesis using parent once child by blast
qed

theorem duplicate_sibling_collapse_witness:
  "\<not> skipped (u '' dup'') \<and>
   list_all (\<lambda>line. skipped line \<or> indent_of (u '' dup'') \<le> indent_of line) [u ''  x'', u '' other''] \<and>
   list_all (\<lambda>line. skipped line \<or> indent_of (u '' dup'') < indent_of line) [u ''   y''] \<and>
   \<not> skipped (hd [u '' more'', u ''  z'', u ''end'']) \<and>
   indent_of (hd [u '' more'', u ''  z'', u ''end'']) \<le> indent_of (u '' dup'') \<and>
   \<not> overwritten ([u ''top''] @ u '' dup'' # [u ''  x'', u '' other''] @ u '' dup'' # [u ''   y''])
      [u '' more'', u ''  z'', u ''end''] (node_path [u ''top''] (u '' dup'')) \<and>
   build_tree ([u ''top''] @ u '' dup'' # [u ''  x'', u '' other''] @ u '' dup'' # [u ''   y''] @
       [u '' more'', u ''  z'', u ''end'']) =
     Some (Tree [(u ''top'', Tree [(u ''dup'', Tree [(u ''y'', Tree [])]), (u ''other'', Tree []),
                                   (u ''more'', Tree [(u ''z'', Tree [])])]),
                 (u ''end'', Tree [])]) \<and>
   build_tree [u ''   y''] = Some (Tree [(u ''y'', Tree [])]) \<and>
   (\<exists>t parent children.
     build_tree ([u ''top''] @ u '' dup'' # [u ''  x'', u '' other''] @ u '' dup'' # [u ''   y''] @
       [u '' more'', u ''  z'', u ''end'']) = Some t \<and>
     subtree t (nesting_path (indent_of (u '' dup'')) (rev (config_items [u ''top'']))) = Some parent \<and>
     count_list (keys parent) (command (u '' dup'')) = 1 \<and>
     getitem parent (command (u '' dup'')) = Some children \<and>
     build_tree [u ''   y''] = Some children)"
proof -
  let ?rest = "[u '' more'', u ''  z'', u ''end'']"
  have h1: "\<not> skipped (u '' dup'')" by (simp add: eval_lines)
  have h5: "\<forall>line\<in>set [u ''  x'', u '' other'']. \<not> skipped line \<longrightarrow> indent_of (u '' dup'') \<le> indent_of line"
    by (simp add: eval_lines)
  have h6: "\<forall>line\<in>set [u ''   y'']. \<not> skipped line \<longrightarrow> indent_of (u '' dup'') < indent_of line"
    by (simp add: eval_lines)
  have h7: "\<not> skipped (hd ?rest) \<and> indent_of (hd ?rest) \<le> indent_of (u '' dup'')"
    by (simp add: eval_lines)
  then have h7': "?rest = [] \<or> \<not> skipped (hd ?rest) \<and> indent_of (hd ?rest) \<le> indent_of (u '' dup'')"
    by (rule disjI2)
  have h8: "\<not> overwritten ([u ''top''] @ u '' dup'' # [u ''  x'', u '' other''] @ u '' dup'' # [u ''   y''])
      ?rest (node_path [u ''top''] (u '' dup''))"
    by (simp add: eval_path)
  have t: "build_tree ([u ''top''] @ u '' dup'' # [u ''  x'', u '' other''] @ u '' dup'' # [u ''   y''] @ ?rest) =
     Some (Tree [(u ''top'', Tree [(u ''dup'', Tree [(u ''y'', Tree [])]), (u ''other'', Tree []),
                                   (u ''more'', Tree [(u ''z'', Tree [])])]),
                 (u ''end'', Tree [])])"
    by (simp add: build_tree_def build_line_def tree_at.simps eval_lines)
  have s: "build_tree [u ''   y''] = Some (Tree [(u ''y'', Tree [])])"
    by (simp add: build_tree_def build_line_def tree_at.simps eval_lines)
  from duplicate_sibling_collapse [OF h1 h1 refl refl h5 h6 h7' h8]
  have "\<exists>t parent children.
     build_tree ([u ''top''] @ u '' dup'' # [u ''  x'', u '' other''] @ u '' dup'' # [u ''   y''] @ ?rest) = Some t \<and>
     subtree t (nesting_path (indent_of (u '' dup'')) (rev (config_items [u ''top'']))) = Some parent \<and>
     count_list (keys parent) (command (u '' dup'')) = 1 \<and>
     getitem parent (command (u '' dup'')) = Some children \<and>
     build_tree [u ''   y''] = Some children"
    by blast
  moreover have "list_all (\<lambda>line. skipped line \<or> indent_of (u '' dup'') \<le> indent_of line) [u ''  x'', u '' other'']"
    "list_all (\<lambda>line. skipped line \<or> indent_of (u '' dup'') < indent_of line) [u ''   y'']"
    using h5 h6 by (auto simp: list_all_iff)
  ultimately show ?thesis using h1 h7 h8 t s by blast
qed

text \<open>
  A third line with the same text under the same parent takes the place of the node
  again: the node of the first two lines \<open>dup\<close> has no children at the end, not the
  children \<open>y\<close> of the second.
\<close>

theorem duplicate_sibling_third:
  "indent_of (u '' dup'') = 1 \<and> command (u '' dup'') = u ''dup'' \<and>
   overwritten [u ''top'', u '' dup'', u ''  x'', u '' dup'', u ''  y''] [u '' dup'']
     (node_path [u ''top''] (u '' dup'')) \<and>
   build_tree [u ''top'', u '' dup'', u ''  x'', u '' dup'', u ''  y'', u '' dup''] =
     Some (Tree [(u ''top'', Tree [(u ''dup'', Tree [])])]) \<and>
   build_tree [u ''  y''] = Some (Tree [(u ''y'', Tree [])])"
  by (simp add: build_tree_def build_line_def tree_at.simps eval_path)

text \<open>
  C7, skip-line invariance. The lines that \<open>build_tree\<close> passes over are those that
  are empty after trimming or are the single character \<open>!\<close> after trimming, whatever
  their indentation. Such a line changes neither the heap nor the stack; a tree does
  not change when such a line is put in anywhere; and two sequences of lines that
  differ in such lines only give the same tree.
\<close>

theorem skip_line_invariance:
  "(skipped line \<longleftrightarrow> strip line = [] \<or> strip line = u ''!'') \<and>
   (skipped line \<longrightarrow> build_line line (heap, stack) = Some (heap, stack)) \<and>
   (skipped line \<longrightarrow> build_tree (before @ line # after) = build_tree (before @ after)) \<and>
   (filter (\<lambda>line. \<not> skipped line) lines' = filter (\<lambda>line. \<not> skipped line) config_lines \<longrightarrow>
      build_tree lines' = build_tree config_lines)"
proof (intro conjI impI)
  show "skipped line \<longleftrightarrow> strip line = [] \<or> strip line = u ''!''" by (rule skipped_iff)
  show "build_line line (heap, stack) = Some (heap, stack)" if "skipped line"
    using that by (rule build_line_skipped)
  show "build_tree (before @ line # after) = build_tree (before @ after)" if "skipped line"
    using that build_tree_filter [of "before @ line # after"] build_tree_filter [of "before @ after"]
    by simp
  show "build_tree lines' = build_tree config_lines"
    if "filter (\<lambda>line. \<not> skipped line) lines' = filter (\<lambda>line. \<not> skipped line) config_lines"
    using that build_tree_filter [of lines'] build_tree_filter [of config_lines] by simp
qed

theorem skip_line_invariance_witness:
  "skipped (u ''   !  '') \<and>
   build_tree ([u ''a''] @ u ''   !  '' # [u '' b'']) = build_tree ([u ''a''] @ [u '' b'']) \<and>
   build_tree [u ''a'', u '' b''] = Some (Tree [(u ''a'', Tree [(u ''b'', Tree [])])])"
proof -
  have s: "skipped (u ''   !  '')"
    by (simp add: skipped_def rstrip_def lstrip_def strip_def u_def isspace_def)
  have t: "build_tree [u ''a'', u '' b''] = Some (Tree [(u ''a'', Tree [(u ''b'', Tree [])])])"
    by (simp add: build_tree_def build_line_def tree_at.simps skipped_def indent_of_def
        command_def rstrip_def lstrip_def strip_def u_def isspace_def)
  from skip_line_invariance [of "u ''   !  ''" "[]" "[]" "[u ''a'']" "[u '' b'']" "[]" "[]"] s t
  show ?thesis by simp
qed

text \<open>
  C8, totality of the core. For every sequence of lines the loop of \<open>build_tree\<close>
  ends without an \<open>IndexError\<close>, the stack is not empty at the end and the pair
  \<open>(-1, root)\<close> is still at its bottom, and \<open>build_tree\<close> returns a tree. For every
  pair of trees, every depth and every order of the keys \<open>diff_trees\<close> raises no
  \<open>KeyError\<close>; it returns its report when the interpreter allows more nested
  calls than the higher of the two trees has levels, and it raises
  \<open>RecursionError\<close> on two dictionaries of which one has at least as many levels
  as the interpreter allows nested calls.
\<close>

theorem core_total:
  "(\<exists>heap stack. build_lines config_lines ([[]], [(- 1, 0)]) = Some (heap, stack) \<and>
       stack \<noteq> [] \<and> last stack = (- 1, 0)) \<and>
   (\<exists>t. build_tree config_lines = Some t) \<and>
   diff_trees_rec frames slot old_tree new_tree indent \<noteq> Inl KeyError \<and>
   (max (height old_tree) (height new_tree) < frames \<longrightarrow>
      (\<exists>diff_lines. diff_trees_rec frames slot old_tree new_tree indent = Inr diff_lines \<and>
         diff_trees slot old_tree new_tree indent = Some diff_lines)) \<and>
   (wf_tree old_tree \<and> wf_tree new_tree \<and> frames \<le> max (height old_tree) (height new_tree) \<longrightarrow>
      diff_trees_rec frames slot old_tree new_tree indent = Inl RecursionError)"
proof (intro conjI impI)
  from build_lines_sentinel [of "[(- 1, 0)]" config_lines "[[]]"]
  show "\<exists>heap stack. build_lines config_lines ([[]], [(- 1, 0)]) = Some (heap, stack) \<and>
      stack \<noteq> [] \<and> last stack = (- 1, 0)"
    by auto
  show "\<exists>t. build_tree config_lines = Some t"
    by (simp add: build_tree_nesting)
  show "diff_trees_rec frames slot old_tree new_tree indent \<noteq> Inl KeyError"
    by (rule diff_trees_rec_no_KeyError)
  show "\<exists>diff_lines. diff_trees_rec frames slot old_tree new_tree indent = Inr diff_lines \<and>
      diff_trees slot old_tree new_tree indent = Some diff_lines"
    if "max (height old_tree) (height new_tree) < frames"
    using diff_trees_rec_returns [OF that] by (simp add: diff_trees_entries)
  show "diff_trees_rec frames slot old_tree new_tree indent = Inl RecursionError"
    if "wf_tree old_tree \<and> wf_tree new_tree \<and> frames \<le> max (height old_tree) (height new_tree)"
    using that by (simp add: diff_trees_rec_overflow)
qed

theorem core_total_witness:
  "(\<exists>heap stack. build_lines [u ''  a'', u ''b'', u '' c''] ([[]], [(- 1, 0)]) = Some (heap, stack) \<and>
       stack \<noteq> [] \<and> last stack = (- 1, 0)) \<and>
   build_tree [u ''  a'', u ''b'', u '' c''] =
     Some (Tree [(u ''a'', Tree []), (u ''b'', Tree [(u ''c'', Tree [])])]) \<and>
   max (height (Tree [(u ''a'', Tree [(u ''b'', Tree [])])])) (height (Tree [])) < 3 \<and>
   diff_trees_rec 3 first_seen (Tree [(u ''a'', Tree [(u ''b'', Tree [])])]) (Tree []) 0 =
     Inr [u ''- a'', u ''  - b''] \<and>
   diff_trees first_seen (Tree [(u ''a'', Tree [(u ''b'', Tree [])])]) (Tree []) 0 =
     Some [u ''- a'', u ''  - b''] \<and>
   wf_tree (Tree [(u ''a'', Tree [(u ''b'', Tree [])])]) \<and> wf_tree (Tree []) \<and>
   2 \<le> max (height (Tree [(u ''a'', Tree [(u ''b'', Tree [])])])) (height (Tree [])) \<and>
   diff_trees_rec 2 first_seen (Tree [(u ''a'', Tree [(u ''b'', Tree [])])]) (Tree []) 0 =
     Inl RecursionError"
proof -
  let ?lines = "[u ''  a'', u ''b'', u '' c'']"
  let ?A = "Tree [(u ''a'', Tree [(u ''b'', Tree [])])]"
  have h: "height ?A = 2" "height (Tree []) = 0" by simp_all
  have w: "wf_tree ?A" "wf_tree (Tree [])" by (simp_all add: u_def)
  have t: "build_tree ?lines = Some (Tree [(u ''a'', Tree []), (u ''b'', Tree [(u ''c'', Tree [])])])"
    by (simp add: build_tree_nesting put_node_def getitem_def eval_lines)
  have d: "diff_trees first_seen ?A (Tree []) 0 = Some [u ''- a'', u ''  - b'']"
    by (simp add: diff_trees_entries diff_entries_unfold key_entries_def union_keys_def keys_def
        getitem_def spaces_def u_def first_seen_def position_def)
  from core_total [of ?lines 3 first_seen ?A "Tree []" 0] h d
  have "(\<exists>heap stack. build_lines ?lines ([[]], [(- 1, 0)]) = Some (heap, stack) \<and>
      stack \<noteq> [] \<and> last stack = (- 1, 0))"
    and "diff_trees_rec 3 first_seen ?A (Tree []) 0 = Inr [u ''- a'', u ''  - b'']"
    by simp_all
  moreover from core_total [of ?lines 2 first_seen ?A "Tree []" 0] h w
  have "diff_trees_rec 2 first_seen ?A (Tree []) 0 = Inl RecursionError"
    by simp
  ultimately show ?thesis using h w t d by simp
qed

text \<open>
  The tree that \<open>build_tree\<close> makes of 1000 lines of growing indentation has 1000
  levels, and \<open>diff_trees\<close> raises \<open>RecursionError\<close> on it even when all the 1000
  calls that the interpreter allows by default are left to it.
\<close>

theorem diff_trees_deep_fails:
  "build_tree (deep_lines 1000) = Some (deep_tree 1000) \<and>
   diff_trees_rec 1000 first_seen (deep_tree 1000) (Tree []) 0 = Inl RecursionError"
  by (simp add: build_tree_deep_lines diff_trees_rec_overflow)

text \<open>
  C9, the concrete scenario. The two sequences of lines give the trees
  \<open>{interface eth0: {ip address 1.2.3.4: {}}}\<close> and
  \<open>{interface eth0: {ip address 5.6.7.8: {}}}\<close>, and their report starts with the header
  \<open>interface eth0\<close>. The two lines that follow come in the order in which the loop
  visits \<open>ip address 1.2.3.4\<close> and \<open>ip address 5.6.7.8\<close>, the two keys of the set
  \<open>set(old_tree) | set(new_tree)\<close>: the removed line first when the old key has the
  lower slot of the hash table, the added line first otherwise.
\<close>

theorem scenario_report:
  "build_tree [u ''interface eth0'', u ''  ip address 1.2.3.4'', u ''!''] =
     Some (Tree [(u ''interface eth0'', Tree [(u ''ip address 1.2.3.4'', Tree [])])]) \<and>
   build_tree [u ''interface eth0'', u ''  ip address 5.6.7.8''] =
     Some (Tree [(u ''interface eth0'', Tree [(u ''ip address 5.6.7.8'', Tree [])])]) \<and>
   diff_trees slot (Tree [(u ''interface eth0'', Tree [(u ''ip address 1.2.3.4'', Tree [])])])
     (Tree [(u ''interface eth0'', Tree [(u ''ip address 5.6.7.8'', Tree [])])]) 0 =
   Some (if slot [u ''ip address 1.2.3.4''] [u ''ip address 5.6.7.8''] (u ''ip address 1.2.3.4'')
            \<le> slot [u ''ip address 1.2.3.4''] [u ''ip address 5.6.7.8''] (u ''ip address 5.6.7.8'')
         then [u ''interface eth0'', u ''  - ip address 1.2.3.4'', u ''  + ip address 5.6.7.8'']
         else [u ''interface eth0'', u ''  + ip address 5.6.7.8'', u ''  - ip address 1.2.3.4''])"
  using build_tree_scenario_old build_tree_scenario_new diff_scenario [of slot] by blast

theorem scenario_report_witness:
  "diff_trees first_seen (Tree [(u ''interface eth0'', Tree [(u ''ip address 1.2.3.4'', Tree [])])])
     (Tree [(u ''interface eth0'', Tree [(u ''ip address 5.6.7.8'', Tree [])])]) 0 =
   Some [u ''interface eth0'', u ''  - ip address 1.2.3.4'', u ''  + ip address 5.6.7.8'']"
  using scenario_report [of first_seen] by (simp add: first_seen_def position_def u_def)

text \<open>
  The order that C9 gives is not the only one: with the new key in the lower slot the
  added line comes before the removed line.
\<close>

theorem scenario_report_other_order:
  "build_tree [u ''interface eth0'', u ''  ip address 1.2.3.4'', u ''!''] =
     Some (Tree [(u ''interface eth0'', Tree [(u ''ip address 1.2.3.4'', Tree [])])]) \<and>
   build_tree [u ''interface eth0'', u ''  ip address 5.6.7.8''] =
     Some (Tree [(u ''interface eth0'', Tree [(u ''ip address 5.6.7.8'', Tree [])])]) \<and>
   diff_trees new_first (Tree [(u ''interface eth0'', Tree [(u ''ip address 1.2.3.4'', Tree [])])])
     (Tree [(u ''interface eth0'', Tree [(u ''ip address 5.6.7.8'', Tree [])])]) 0 =
     Some [u ''interface eth0'', u ''  + ip address 5.6.7.8'', u ''  - ip address 1.2.3.4''] \<and>
   diff_trees new_first (Tree [(u ''interface eth0'', Tree [(u ''ip address 1.2.3.4'', Tree [])])])
     (Tree [(u ''interface eth0'', Tree [(u ''ip address 5.6.7.8'', Tree [])])]) 0 \<noteq>
     Some [u ''interface eth0'', u ''  - ip address 1.2.3.4'', u ''  + ip address 5.6.7.8'']"
  using build_tree_scenario_old build_tree_scenario_new diff_scenario [of new_first]
  by (simp add: new_first_def position_def u_def)

end
